theory Spec2Isabelle
  imports Main "HOL-Library.Word"
begin

unbundle bit_operations_syntax

section \<open>Machine integers and error codes of libavcodec/nvenc.c\<close>

type_synonym uint32_t = "32 word"
type_synonym int32_t = "32 word"
type_synonym int64_t = "64 word"

text \<open>
  \<open>int\<close> and \<open>int64_t\<close> values are kept as words and read with \<open>sint\<close>; the signed
  comparisons of the source are \<open>\<le>s\<close> and \<open><s\<close>.  Signed arithmetic wraps around in the
  model, as the two's-complement machine does.

  The error macros come from libavutil, which is not part of the sources at hand; they
  are the usual negated errno values and the negated tag \<open>'E','X','T',' '\<close>.
\<close>

definition AV_NOPTS_VALUE :: int64_t where
  "AV_NOPTS_VALUE = 0x8000000000000000"

definition AVERROR_ENOMEM :: int where
  "AVERROR_ENOMEM = - 12"

definition AVERROR_EINVAL :: int where
  "AVERROR_EINVAL = - 22"

definition AVERROR_EXTERNAL :: int where
  "AVERROR_EXTERNAL = - 542398533"

text \<open>
  What ends a call without a return value: a failed \<open>av_assert0\<close> (the process aborts),
  an access outside an allocated array or through a null pointer, \<open>av_free\<close> of a
  pointer that was never assigned, and the recursion budget of the model of
  \<open>data_queue_enqueue\<close> running out.
\<close>

datatype fault = AssertFailed | OutOfBounds | NullDeref | RecursionLimit | UndefinedBehaviour

section \<open>The growable ring queue\<close>

text \<open>
  \<open>NvencDataList\<close>: \<open>data\<close> is \<open>None\<close> for a null pointer and otherwise the allocated
  array.  The payload is the union \<open>NvencData\<close>; a queue holds either timestamps or
  surface pointers throughout, so the model is polymorphic in the payload.
\<close>

record 'a NvencDataList =
  data :: "'a list option"
  pos :: uint32_t
  count :: uint32_t
  size_q :: uint32_t

text \<open>
  \<open>av_malloc\<close> is outside the sources at hand.  The model takes the allocator's answers
  from a list that is consumed call by call: \<open>None\<close> is a failed allocation,
  \<open>Some j\<close> a successful one whose memory initially holds \<open>j\<close> in every slot
  (freshly allocated memory is indeterminate; nothing below depends on \<open>j\<close>).  An
  exhausted list answers with failure.
\<close>

type_synonym 'a heap = "'a option list"

fun av_malloc :: "'a heap \<Rightarrow> nat \<Rightarrow> 'a list option \<times> 'a heap" where
  "av_malloc [] n = (None, [])"
| "av_malloc (None # h) n = (None, h)"
| "av_malloc (Some j # h) n = (Some (replicate n j), h)"

text \<open>
  \<open>data_queue_dequeue\<close> returns a pointer into the array, or \<open>NULL\<close>.  Every caller
  reads the slot before the array is written again, so the model returns the slot's
  value at the time of the call.
\<close>

definition data_queue_dequeue ::
  "'a NvencDataList \<Rightarrow> fault + ('a option \<times> 'a NvencDataList)" where
  "data_queue_dequeue queue =
     (if size_q queue = 0 then Inl AssertFailed
      else case data queue of
        None \<Rightarrow> Inl AssertFailed
      | Some arr \<Rightarrow>
          if count queue = 0 then Inr (None, queue)
          else
            let mask = size_q queue - 1;
                read_pos = (pos queue - count queue) AND mask
            in if unat read_pos < length arr
               then Inr (Some (arr ! unat read_pos), queue\<lparr>count := count queue - 1\<rparr>)
               else Inl OutOfBounds)"

text \<open>
  The loop \<open>while (tmp_data = data_queue_dequeue(queue)) data_queue_enqueue(&new_queue, tmp_data)\<close>
  of \<open>data_queue_enqueue\<close>, with the inner enqueue passed in as \<open>enq\<close>; its return code
  is dropped, as in the source.
\<close>

function requeue ::
  "('a heap \<Rightarrow> 'a NvencDataList \<Rightarrow> 'a \<Rightarrow> fault + (int \<times> 'a NvencDataList \<times> 'a heap)) \<Rightarrow>
   'a heap \<Rightarrow> 'a NvencDataList \<Rightarrow> 'a NvencDataList \<Rightarrow>
   fault + ('a NvencDataList \<times> 'a NvencDataList \<times> 'a heap)" where
  "requeue enq h queue new_queue =
     (case data_queue_dequeue queue of
        Inl f \<Rightarrow> Inl f
      | Inr (None, queue') \<Rightarrow> Inr (queue', new_queue, h)
      | Inr (Some tmp_data, queue') \<Rightarrow>
          (case enq h new_queue tmp_data of
             Inl f \<Rightarrow> Inl f
           | Inr (res, new_queue', h') \<Rightarrow> requeue enq h' queue' new_queue'))"
  by pat_completeness auto

lemma dequeue_count_less:
  "data_queue_dequeue queue = Inr (Some x, queue') \<Longrightarrow> unat (count queue') < unat (count queue)"
  by (auto simp: data_queue_dequeue_def Let_def unat_minus_one unat_gt_0
           split: if_splits option.splits)

termination requeue
  by (relation "measure (\<lambda>(enq, h, queue, new_queue). unat (count queue))")
     (auto dest: dequeue_count_less)

text \<open>
  \<open>data_queue_enqueue\<close>, in the three parts of its body.  First the allocation of an
  empty queue's first array of four slots (\<open>if (!queue->size)\<close>): \<open>Inl\<close> is the early
  return with the queue as the failed branch leaves it.
\<close>

definition data_queue_init ::
  "'a heap \<Rightarrow> 'a NvencDataList \<Rightarrow> (int \<times> 'a NvencDataList \<times> 'a heap) + ('a NvencDataList \<times> 'a heap)" where
  "data_queue_init h queue =
     (if size_q queue = 0 then
        (case av_malloc h 4 of
           (None, h1) \<Rightarrow>
             Inl (AVERROR_ENOMEM, queue\<lparr>data := None, pos := 0, count := 0, size_q := 0\<rparr>, h1)
         | (Some arr, h1) \<Rightarrow>
             Inr (queue\<lparr>data := Some arr, pos := 0, count := 0, size_q := 4\<rparr>, h1))
      else Inr (queue, h))"

text \<open>Last, the store of the new element at \<open>pos\<close> and the advance of \<open>pos\<close> and \<open>count\<close>.\<close>

definition data_queue_store ::
  "'a \<Rightarrow> 'a heap \<Rightarrow> 'a NvencDataList \<Rightarrow> fault + (int \<times> 'a NvencDataList \<times> 'a heap)" where
  "data_queue_store d h queue =
     (case data queue of
        None \<Rightarrow> Inl NullDeref
      | Some arr \<Rightarrow>
          if unat (pos queue) < length arr
          then let mask = size_q queue - 1
               in Inr (0, queue\<lparr>data := Some (arr[unat (pos queue) := d]),
                                 pos := (pos queue + 1) AND mask,
                                 count := count queue + 1\<rparr>, h)
          else Inl OutOfBounds)"

text \<open>
  Between the two, a full queue is moved into an array of twice the size.  The source
  calls \<open>data_queue_enqueue\<close> itself on \<open>new_queue\<close> inside the loop; the first argument
  of the model bounds the depth of that recursion.
\<close>

primrec data_queue_enqueue ::
  "nat \<Rightarrow> 'a heap \<Rightarrow> 'a NvencDataList \<Rightarrow> 'a \<Rightarrow> fault + (int \<times> 'a NvencDataList \<times> 'a heap)" where
  "data_queue_enqueue 0 h queue d = Inl RecursionLimit"
| "data_queue_enqueue (Suc n) h queue d =
     (case data_queue_init h queue of
        Inl r \<Rightarrow> Inr r
      | Inr (q1, h1) \<Rightarrow>
          if count q1 = size_q q1 then
            (case av_malloc h1 (unat (push_bit 1 (size_q q1) :: uint32_t)) of
               (None, h2) \<Rightarrow> Inr (AVERROR_ENOMEM, q1, h2)
             | (Some arr, h2) \<Rightarrow>
                 (case requeue (data_queue_enqueue n) h2 q1
                         \<lparr>data = Some arr, pos = 0, count = 0,
                          size_q = push_bit 1 (size_q q1)\<rparr> of
                    Inl f \<Rightarrow> Inl f
                  | Inr (q1', new_queue, h3) \<Rightarrow> data_queue_store d h3 new_queue))
          else data_queue_store d h1 q1)"

declare data_queue_enqueue.simps [simp del] requeue.simps [simp del]

text \<open>
  The two instantiations.  A surface queue holds pointers to elements of
  \<open>ctx->output_surfaces\<close>: \<open>Some i\<close> is \<open>&ctx->output_surfaces[i]\<close> and \<open>None\<close> is \<open>NULL\<close>.
\<close>

type_synonym surface_ptr = "nat option"

definition out_surf_queue_enqueue ::
  "nat \<Rightarrow> surface_ptr heap \<Rightarrow> surface_ptr NvencDataList \<Rightarrow> surface_ptr \<Rightarrow>
   fault + (int \<times> surface_ptr NvencDataList \<times> surface_ptr heap)" where
  "out_surf_queue_enqueue n h queue surface = data_queue_enqueue n h queue surface"

definition out_surf_queue_dequeue ::
  "surface_ptr NvencDataList \<Rightarrow> fault + (surface_ptr \<times> surface_ptr NvencDataList)" where
  "out_surf_queue_dequeue queue =
     (case data_queue_dequeue queue of
        Inl f \<Rightarrow> Inl f
      | Inr (None, queue') \<Rightarrow> Inr (None, queue')
      | Inr (Some surface, queue') \<Rightarrow> Inr (surface, queue'))"

definition timestamp_queue_enqueue ::
  "nat \<Rightarrow> int64_t heap \<Rightarrow> int64_t NvencDataList \<Rightarrow> int64_t \<Rightarrow>
   fault + (int \<times> int64_t NvencDataList \<times> int64_t heap)" where
  "timestamp_queue_enqueue n h queue timestamp = data_queue_enqueue n h queue timestamp"

definition timestamp_queue_dequeue ::
  "int64_t NvencDataList \<Rightarrow> fault + (int64_t \<times> int64_t NvencDataList)" where
  "timestamp_queue_dequeue queue =
     (case data_queue_dequeue queue of
        Inl f \<Rightarrow> Inl f
      | Inr (None, queue') \<Rightarrow> Inr (AV_NOPTS_VALUE, queue')
      | Inr (Some t, queue') \<Rightarrow> Inr (t, queue'))"

section \<open>The queue as a list\<close>

text \<open>
  The abstraction used to state the queue properties: the \<open>count\<close> values that
  \<open>data_queue_dequeue\<close> would hand out, oldest first.  \<open>queue_inv\<close> is the shape every
  queue has between calls: either the zero-initialised struct, with no array yet, or an
  array whose length \<open>size\<close> is a power of two from 4 to \<open>2 ^ 31\<close>, with \<open>pos\<close> inside the
  array and at most \<open>size\<close> elements.
\<close>

definition queue_inv :: "'a NvencDataList \<Rightarrow> bool" where
  "queue_inv q =
     (case data q of
        None \<Rightarrow> size_q q = 0 \<and> pos q = 0 \<and> count q = 0
      | Some arr \<Rightarrow>
          (\<exists>k \<in> {2..31}. size_q q = 2 ^ k) \<and> length arr = unat (size_q q) \<and>
          pos q < size_q q \<and> count q \<le> size_q q)"

definition queue_contents :: "'a NvencDataList \<Rightarrow> 'a list" where
  "queue_contents q =
     (case data q of
        None \<Rightarrow> []
      | Some arr \<Rightarrow>
          map (\<lambda>i. arr ! unat ((pos q - count q + of_nat i) AND (size_q q - 1)))
            [0..<unat (count q)])"

text \<open>The queue that \<open>data_queue_store\<close> leaves behind.\<close>

definition stored :: "'a \<Rightarrow> 'a NvencDataList \<Rightarrow> 'a NvencDataList" where
  "stored d q = q\<lparr>data := Some ((the (data q))[unat (pos q) := d]),
                   pos := (pos q + 1) AND (size_q q - 1), count := count q + 1\<rparr>"

text \<open>
  An enqueue allocates when the queue has no array yet or is full; the allocation fails
  when the allocator's next answer is a failure.
\<close>

definition needs_alloc :: "'a NvencDataList \<Rightarrow> bool" where
  "needs_alloc q = (size_q q = 0 \<or> count q = size_q q)"

definition heap_fails :: "'a heap \<Rightarrow> bool" where
  "heap_fails h = (case h of [] \<Rightarrow> True | None # _ \<Rightarrow> True | Some _ # _ \<Rightarrow> False)"

text \<open>The zero-initialised queue, as the codec context holds it before the first enqueue.\<close>

definition empty_queue :: "'a NvencDataList" where
  "empty_queue = \<lparr>data = None, pos = 0, count = 0, size_q = 0\<rparr>"

text \<open>
  Sequences of queue operations, the results they produce, and the reference: a list
  used first-in-first-out.  \<open>fifo_events xs es\<close> replays the results \<open>es\<close> on the list
  \<open>xs\<close> and returns the final list, or \<open>None\<close> if some dequeue did not return the oldest
  element (or \<open>NULL\<close> on a non-empty list).
\<close>

datatype 'a queue_op = Enqueue 'a | Dequeue

datatype 'a queue_event = Enqueued 'a int | Dequeued "'a option"

fun run_queue_ops ::
  "nat \<Rightarrow> 'a heap \<Rightarrow> 'a NvencDataList \<Rightarrow> 'a queue_op list \<Rightarrow>
   fault + ('a queue_event list \<times> 'a NvencDataList \<times> 'a heap)" where
  "run_queue_ops n h q [] = Inr ([], q, h)"
| "run_queue_ops n h q (Enqueue x # ops) =
     (case data_queue_enqueue n h q x of
        Inl f \<Rightarrow> Inl f
      | Inr (rc, q', h') \<Rightarrow>
          (case run_queue_ops n h' q' ops of
             Inl f \<Rightarrow> Inl f
           | Inr (es, q'', h'') \<Rightarrow> Inr (Enqueued x rc # es, q'', h'')))"
| "run_queue_ops n h q (Dequeue # ops) =
     (case data_queue_dequeue q of
        Inl f \<Rightarrow> Inl f
      | Inr (r, q') \<Rightarrow>
          (case run_queue_ops n h q' ops of
             Inl f \<Rightarrow> Inl f
           | Inr (es, q'', h'') \<Rightarrow> Inr (Dequeued r # es, q'', h'')))"

fun fifo_events :: "'a list \<Rightarrow> 'a queue_event list \<Rightarrow> 'a list option" where
  "fifo_events xs [] = Some xs"
| "fifo_events xs (Enqueued x rc # es) =
     (if rc = 0 then fifo_events (xs @ [x]) es else fifo_events xs es)"
| "fifo_events xs (Dequeued None # es) =
     (if xs = [] then fifo_events xs es else None)"
| "fifo_events xs (Dequeued (Some y) # es) =
     (case xs of [] \<Rightarrow> None | x # xs' \<Rightarrow> if x = y then fifo_events xs' es else None)"

text \<open>
  The reference that follows the words of the specification: a list used
  first-in-first-out together with a capacity.  An enqueue appends; when there is no
  array yet (capacity 0) or the list fills the capacity it first needs a new array, of
  four slots or of twice the capacity, and returns \<open>AVERROR(ENOMEM)\<close> and adds nothing
  when the allocator refuses.  A dequeue hands out the oldest element, or \<open>NULL\<close> on an
  empty list; without an array it stops on the assertion.  \<open>emit\<close> puts the result of
  one operation in front of those of the rest of the run.
\<close>

definition emit :: "'e \<Rightarrow> fault + ('e list \<times> 'r) \<Rightarrow> fault + ('e list \<times> 'r)" where
  "emit e r = (case r of Inl f \<Rightarrow> Inl f | Inr (es, s) \<Rightarrow> Inr (e # es, s))"

fun spec_fifo_run ::
  "'a heap \<Rightarrow> 'a list \<Rightarrow> nat \<Rightarrow> 'a queue_op list \<Rightarrow>
   fault + ('a queue_event list \<times> 'a list \<times> nat \<times> 'a heap)" where
  "spec_fifo_run h xs cap [] = Inr ([], xs, cap, h)"
| "spec_fifo_run h xs cap (Enqueue x # ops) =
     (if cap = 0 \<or> length xs = cap then
        if heap_fails h
        then emit (Enqueued x AVERROR_ENOMEM) (spec_fifo_run (tl h) xs cap ops)
        else emit (Enqueued x 0)
               (spec_fifo_run (tl h) (xs @ [x]) (if cap = 0 then 4 else 2 * cap) ops)
      else emit (Enqueued x 0) (spec_fifo_run h (xs @ [x]) cap ops))"
| "spec_fifo_run h xs cap (Dequeue # ops) =
     (if cap = 0 then Inl AssertFailed
      else case xs of
        [] \<Rightarrow> emit (Dequeued None) (spec_fifo_run h xs cap ops)
      | y # ys \<Rightarrow> emit (Dequeued (Some y)) (spec_fifo_run h ys cap ops))"

text \<open>
  A run of the code refines a run of the reference: both stop with the same failure, or
  both return the same results and allocator state, and the queue of the code holds the
  list and has the capacity of the reference.
\<close>

definition run_refines ::
  "fault + ('a queue_event list \<times> 'a NvencDataList \<times> 'a heap) \<Rightarrow>
   fault + ('a queue_event list \<times> 'a list \<times> nat \<times> 'a heap) \<Rightarrow> bool" where
  "run_refines R S =
     (case R of
        Inl f \<Rightarrow> S = Inl f
      | Inr (es, q', h') \<Rightarrow>
          S = Inr (es, queue_contents q', unat (size_q q'), h') \<and> queue_inv q')"

text \<open>Repeated dequeues, collecting what each returns.\<close>

fun dequeue_times ::
  "nat \<Rightarrow> 'a NvencDataList \<Rightarrow> fault + ('a option list \<times> 'a NvencDataList)" where
  "dequeue_times 0 q = Inr ([], q)"
| "dequeue_times (Suc n) q =
     (case data_queue_dequeue q of
        Inl f \<Rightarrow> Inl f
      | Inr (r, q') \<Rightarrow>
          (case dequeue_times n q' of
             Inl f \<Rightarrow> Inl f
           | Inr (rs, q'') \<Rightarrow> Inr (r # rs, q'')))"

fun timestamp_dequeue_times ::
  "nat \<Rightarrow> int64_t NvencDataList \<Rightarrow> fault + (int64_t list \<times> int64_t NvencDataList)" where
  "timestamp_dequeue_times 0 q = Inr ([], q)"
| "timestamp_dequeue_times (Suc n) q =
     (case timestamp_queue_dequeue q of
        Inl f \<Rightarrow> Inl f
      | Inr (t, q') \<Rightarrow>
          (case timestamp_dequeue_times n q' of
             Inl f \<Rightarrow> Inl f
           | Inr (ts, q'') \<Rightarrow> Inr (t # ts, q'')))"

subsection \<open>Ring arithmetic\<close>

lemma and_mask_unat_less: "unat (a AND mask k :: 32 word) < 2 ^ k"
  by (simp add: unsigned_take_bit_eq flip: take_bit_eq_mask)

lemma less_and_mask_id: "unat (x :: 32 word) < 2 ^ k \<Longrightarrow> x AND mask k = x"
  by (metis mask_eq_iff of_nat_less_numeral_power_cancel_iff of_nat_unat)

lemma unat_sub_of_nat: "i < unat (c :: 32 word) \<Longrightarrow> unat (c - of_nat i) = unat c - i"
  by (metis (no_types, lifting) le_unat_uoi nless_le unat_sub word_less_eq_iff_unsigned)

lemma ring_slot_distinct:
  fixes p c :: "32 word"
  assumes c: "unat c < 2 ^ k" and i: "i < unat c"
  shows "(p - c + of_nat i) AND mask k \<noteq> p AND mask k"
proof
  define y where "y = c - of_nat i"
  assume eq: "(p - c + of_nat i) AND mask k = p AND mask k"
  have "((p - c + of_nat i) AND mask k) + (y - p) AND mask k = (p AND mask k) + (y - p) AND mask k"
    using eq by simp
  then have "(p - c + of_nat i + (y - p)) AND mask k = (p + (y - p)) AND mask k"
    by (simp only: mask_eqs)
  then have "y AND mask k = 0" by (simp add: y_def)
  moreover have "unat y < 2 ^ k" using c i by (simp add: unat_sub_of_nat y_def)
  then have "y AND mask k = y" by (rule less_and_mask_id)
  ultimately have "unat y = 0" by simp
  then show False using i by (simp add: unat_sub_of_nat y_def)
qed


lemma unat_2p32: "k < 32 \<Longrightarrow> unat (2 ^ k :: 32 word) = 2 ^ k"
proof -
  assume k: "k < 32"
  have lt: "(2::nat) ^ k < 2 ^ LENGTH(32)" using k by (intro power_strict_increasing) simp_all
  have "unat (of_nat (2 ^ k) :: 32 word) = 2 ^ k"
    unfolding unat_of_nat using lt by (rule mod_less)
  then show ?thesis by simp
qed

lemma queue_inv_SomeD:
  assumes "queue_inv q" and "data q = Some arr"
  obtains k where "2 \<le> k" "k < 32" "size_q q = 2 ^ k" "size_q q - 1 = mask k"
    "unat (size_q q) = 2 ^ k" "length arr = 2 ^ k" "pos q < size_q q" "count q \<le> size_q q"
    "size_q q \<noteq> 0"
proof -
  from assms obtain k where k: "2 \<le> k" "k \<le> 31" and sz: "size_q q = 2 ^ k"
    and len: "length arr = unat (size_q q)" and p: "pos q < size_q q" and c: "count q \<le> size_q q"
    by (auto simp: queue_inv_def)
  have k32: "k < 32" using k by simp
  have usz: "unat (size_q q) = 2 ^ k" using k32 by (simp add: sz unat_2p32)
  have "size_q q \<noteq> 0" using usz by (metis unat_0 power_not_zero zero_neq_numeral)
  then show ?thesis
    using that [of k] k k32 sz len p c usz by (simp add: mask_eq_exp_minus_1)
qed


lemma dequeue_nonempty:
  assumes inv: "queue_inv q" and ne: "count q \<noteq> 0"
  shows "\<exists>x. data_queue_dequeue q = Inr (Some x, q\<lparr>count := count q - 1\<rparr>) \<and>
             queue_contents q = x # queue_contents (q\<lparr>count := count q - 1\<rparr>) \<and>
             queue_inv (q\<lparr>count := count q - 1\<rparr>)"
proof -
  from inv ne obtain arr where arr: "data q = Some arr"
    by (auto simp: queue_inv_def split: option.splits)
  from inv arr obtain k where m: "size_q q - 1 = mask k" and len: "length arr = 2 ^ k"
    and c: "count q \<le> size_q q" and s0: "size_q q \<noteq> 0"
    by (rule queue_inv_SomeD)
  have rd: "unat ((pos q - count q) AND mask k) < length arr"
    by (simp add: len and_mask_unat_less)
  have cpos: "0 < unat (count q)" using ne by (simp add: unat_gt_0)
  have c1: "unat (count q - 1) = unat (count q) - 1" using ne by (simp add: unat_minus_one)
  have deq: "data_queue_dequeue q = Inr (Some (arr ! unat ((pos q - count q) AND mask k)), q\<lparr>count := count q - 1\<rparr>)"
    using s0 arr ne rd by (simp add: data_queue_dequeue_def Let_def m)
  have up: "[0..<unat (count q)] = 0 # map Suc [0..<unat (count q) - 1]"
    using cpos by (metis One_nat_def Suc_pred map_Suc_upt upt_conv_Cons)
  have cont: "queue_contents q = arr ! unat ((pos q - count q) AND mask k) # queue_contents (q\<lparr>count := count q - 1\<rparr>)"
    by (simp add: queue_contents_def arr m c1 up comp_def algebra_simps del: upt_Suc)
  have le: "count q - 1 \<le> size_q q"
    using c c1 by (simp add: word_le_nat_alt)
  have inv': "queue_inv (q\<lparr>count := count q - 1\<rparr>)"
    using inv arr le by (simp add: queue_inv_def)
  show ?thesis using deq cont inv' by blast
qed

lemma dequeue_empty:
  "size_q q \<noteq> 0 \<Longrightarrow> data q \<noteq> None \<Longrightarrow> count q = 0 \<Longrightarrow> data_queue_dequeue q = Inr (None, q)"
  by (auto simp: data_queue_dequeue_def)


lemma unat_word_less_Suc:
  fixes c s :: "32 word"
  assumes "c < s"
  shows "unat (c + 1) = Suc (unat c)"
proof -
  have "unat c < unat s" using assms by (simp add: word_less_nat_alt)
  moreover have "unat s < 2 ^ LENGTH(32)" by (rule unsigned_less)
  ultimately have "unat c + unat (1 :: 32 word) < 2 ^ LENGTH(32)" by simp
  then have "unat (c + 1) = unat c + unat (1 :: 32 word)" by (simp only: unat_add_lem)
  then show ?thesis by simp
qed

lemma ring_index_shift:
  fixes p c :: "32 word"
  shows "(((p + 1) AND mask k) - (c + 1) + x) AND mask k = (p - c + x) AND mask k"
proof -
  have "(((p + 1) AND mask k) + (x - (c + 1))) AND mask k = ((p + 1) + (x - (c + 1))) AND mask k"
    by (simp only: mask_eqs)
  then show ?thesis by (simp add: algebra_simps)
qed

lemma store_nonfull:
  assumes inv: "queue_inv q" and s0: "size_q q \<noteq> 0" and lt: "count q < size_q q"
  shows "data_queue_store d h q = Inr (0, stored d q, h)"
    and "queue_contents (stored d q) = queue_contents q @ [d]"
    and "queue_inv (stored d q)"
proof -
  from inv s0 obtain arr where arr: "data q = Some arr"
    by (auto simp: queue_inv_def split: option.splits)
  from inv arr obtain k where k: "2 \<le> k" "k < 32" and sz: "size_q q = 2 ^ k"
    and m: "size_q q - 1 = mask k" and usz: "unat (size_q q) = 2 ^ k"
    and len: "length arr = 2 ^ k" and p: "pos q < size_q q"
    by (rule queue_inv_SomeD)
  have up: "unat (pos q) < 2 ^ k" using p usz by (simp add: word_less_nat_alt)
  have uc: "unat (count q) < 2 ^ k" using lt usz by (simp add: word_less_nat_alt)
  have pm: "pos q AND mask k = pos q" using up by (rule less_and_mask_id)
  have c1: "unat (count q + 1) = Suc (unat (count q))" using lt by (rule unat_word_less_Suc)
  show "data_queue_store d h q = Inr (0, stored d q, h)"
    using arr up len by (simp add: data_queue_store_def stored_def Let_def)
  have old: "arr[unat (pos q) := d] ! unat ((pos q - count q + of_nat i) AND mask k)
             = arr ! unat ((pos q - count q + of_nat i) AND mask k)"
    if "i < unat (count q)" for i
  proof -
    have "(pos q - count q + of_nat i) AND mask k \<noteq> pos q AND mask k"
      using uc that by (rule ring_slot_distinct)
    then have "unat ((pos q - count q + of_nat i) AND mask k) \<noteq> unat (pos q)"
      by (simp add: pm word_unat_eq_iff)
    then show ?thesis by simp
  qed
  have new: "arr[unat (pos q) := d] ! unat ((pos q - count q + of_nat (unat (count q))) AND mask k) = d"
    using up len by (simp add: pm)
  show "queue_contents (stored d q) = queue_contents q @ [d]"
    using old new by (simp add: queue_contents_def stored_def arr m c1 ring_index_shift)
  have pl: "(pos q + 1) AND mask k < size_q q"
    using usz by (simp add: word_less_nat_alt and_mask_unat_less)
  have cl: "count q + 1 \<le> size_q q"
    using lt c1 by (simp add: word_le_nat_alt word_less_nat_alt)
  show "queue_inv (stored d q)"
    using inv arr pl cl len usz by (simp add: queue_inv_def stored_def m)
qed

lemma enqueue_nonfull:
  "size_q q \<noteq> 0 \<Longrightarrow> count q \<noteq> size_q q \<Longrightarrow>
   data_queue_enqueue (Suc n) h q d = data_queue_store d h q"
  by (simp add: data_queue_enqueue.simps data_queue_init_def)


lemma stored_fields [simp]:
  "size_q (stored d q) = size_q q" "count (stored d q) = count q + 1"
  by (simp_all add: stored_def)

lemma requeue_moves:
  assumes "queue_inv q" and "size_q q \<noteq> 0"
    and "queue_inv nq" and "size_q nq \<noteq> 0"
    and "unat (count nq) + unat (count q) < unat (size_q nq)"
  shows "\<exists>q' nq'. requeue (data_queue_enqueue (Suc n)) h q nq = Inr (q', nq', h) \<and>
           queue_contents nq' = queue_contents nq @ queue_contents q \<and>
           queue_inv nq' \<and> size_q nq' = size_q nq \<and>
           unat (count nq') = unat (count nq) + unat (count q)"
  using assms
proof (induction "unat (count q)" arbitrary: q nq)
  case 0
  then have c0: "count q = 0" by (simp add: unat_eq_0)
  from 0 have "data q \<noteq> None" by (auto simp: queue_inv_def split: option.splits)
  with 0 c0 have "data_queue_dequeue q = Inr (None, q)" by (simp add: dequeue_empty)
  moreover have "queue_contents q = []" using c0 by (simp add: queue_contents_def split: option.splits)
  ultimately show ?case using 0 c0 by (subst requeue.simps) simp
next
  case (Suc m)
  let ?q1 = "q\<lparr>count := count q - 1\<rparr>"
  from Suc.hyps(2) have ne: "count q \<noteq> 0" by (metis Zero_not_Suc unat_0)
  from dequeue_nonempty [OF Suc.prems(1) ne] obtain x where
    deq: "data_queue_dequeue q = Inr (Some x, ?q1)" and
    cont: "queue_contents q = x # queue_contents ?q1" and inv1: "queue_inv ?q1"
    by blast
  have c1: "unat (count ?q1) = m" using Suc.hyps(2) ne by (simp add: unat_minus_one)
  have lt: "count nq < size_q nq" using Suc.prems(5) by (simp add: word_less_nat_alt)
  then have neq: "count nq \<noteq> size_q nq" by simp
  have enq: "data_queue_enqueue (Suc n) h nq x = Inr (0, stored x nq, h)"
    using enqueue_nonfull [OF Suc.prems(4) neq] store_nonfull(1) [OF Suc.prems(3,4) lt] by simp
  have cnt: "unat (count (stored x nq)) = Suc (unat (count nq))"
    using lt by (simp add: unat_word_less_Suc)
  have "\<exists>q' nq'. requeue (data_queue_enqueue (Suc n)) h ?q1 (stored x nq) = Inr (q', nq', h) \<and>
           queue_contents nq' = queue_contents (stored x nq) @ queue_contents ?q1 \<and>
           queue_inv nq' \<and> size_q nq' = size_q (stored x nq) \<and>
           unat (count nq') = unat (count (stored x nq)) + unat (count ?q1)"
  proof (rule Suc.hyps(1))
    show "m = unat (count ?q1)" using c1 by simp
    show "queue_inv ?q1" by (rule inv1)
    show "size_q ?q1 \<noteq> 0" using Suc.prems(2) by simp
    show "queue_inv (stored x nq)" by (rule store_nonfull(3) [OF Suc.prems(3,4) lt])
    show "size_q (stored x nq) \<noteq> 0" using Suc.prems(4) by simp
    show "unat (count (stored x nq)) + unat (count ?q1) < unat (size_q (stored x nq))"
      using cnt c1 Suc.hyps(2) Suc.prems(5) by simp
  qed
  then obtain q' nq' where
    r: "requeue (data_queue_enqueue (Suc n)) h ?q1 (stored x nq) = Inr (q', nq', h)" and
    rc: "queue_contents nq' = queue_contents (stored x nq) @ queue_contents ?q1" and
    ri: "queue_inv nq'" and rs: "size_q nq' = size_q (stored x nq)" and
    rn: "unat (count nq') = unat (count (stored x nq)) + unat (count ?q1)"
    by blast
  have "requeue (data_queue_enqueue (Suc n)) h q nq = Inr (q', nq', h)"
    by (subst requeue.simps) (simp add: deq enq r)
  moreover have "queue_contents nq' = queue_contents nq @ queue_contents q"
    using rc cont store_nonfull(2) [OF Suc.prems(3,4) lt] by simp
  moreover have "unat (count nq') = unat (count nq) + unat (count q)"
    using rn cnt c1 Suc.hyps(2) by simp
  ultimately show ?case using ri rs by simp
qed


lemma av_malloc_fails: "heap_fails h \<Longrightarrow> av_malloc h n = (None, tl h)"
  by (cases "(h, n)" rule: av_malloc.cases) (simp_all add: heap_fails_def)

lemma av_malloc_succeeds:
  "\<not> heap_fails h \<Longrightarrow> \<exists>j. av_malloc h n = (Some (replicate n j), tl h)"
  by (cases "(h, n)" rule: av_malloc.cases) (simp_all add: heap_fails_def)

lemma queue_inv_empty: "queue_inv q \<Longrightarrow> size_q q = 0 \<Longrightarrow> q = \<lparr>data = None, pos = 0, count = 0, size_q = 0\<rparr>"
  by (cases q) (auto simp: queue_inv_def split: option.splits)

lemma fresh_queue_inv:
  assumes "2 \<le> k" "k < 32"
  shows "queue_inv \<lparr>data = Some (replicate (unat (2 ^ k :: 32 word)) j), pos = 0, count = 0, size_q = 2 ^ k\<rparr>"
proof -
  have "unat (2 ^ k :: 32 word) = 2 ^ k" using assms by (simp add: unat_2p32)
  then have "(0 :: 32 word) < 2 ^ k" by (simp add: word_less_nat_alt)
  moreover have "k \<in> {2..31}" using assms by simp
  ultimately show ?thesis unfolding queue_inv_def by auto
qed

lemma fresh_queue_contents:
  "queue_contents \<lparr>data = Some arr, pos = 0, count = 0, size_q = s\<rparr> = []"
  by (simp add: queue_contents_def)

lemma enqueue_alloc_fails:
  assumes "queue_inv q" and "needs_alloc q" and "heap_fails h"
  shows "data_queue_enqueue (Suc n) h q d = Inr (AVERROR_ENOMEM, q, tl h)"
proof (cases "size_q q = 0")
  case True
  with assms(1) have "q = \<lparr>data = None, pos = 0, count = 0, size_q = 0\<rparr>" by (rule queue_inv_empty)
  then show ?thesis
    using assms(3) by (simp add: data_queue_enqueue.simps data_queue_init_def av_malloc_fails)
next
  case False
  with assms(2) have "count q = size_q q" by (simp add: needs_alloc_def)
  then show ?thesis
    using False assms(3) by (simp add: data_queue_enqueue.simps data_queue_init_def av_malloc_fails)
qed

lemma enqueue_full_unfold:
  assumes "size_q q \<noteq> 0" and "count q = size_q q"
    and "av_malloc h (unat (push_bit 1 (size_q q) :: 32 word)) = (Some arr, h2)"
    and "requeue (data_queue_enqueue n) h2 q
           \<lparr>data = Some arr, pos = 0, count = 0, size_q = push_bit 1 (size_q q)\<rparr> = Inr (q1', nq, h3)"
  shows "data_queue_enqueue (Suc n) h q d = data_queue_store d h3 nq"
  unfolding data_queue_enqueue.simps(2) data_queue_init_def using assms(1,2)
  by (simp only: assms(3,4) if_False if_True sum.case prod.case option.case refl)

lemma enqueue_succeeds:
  assumes inv: "queue_inv q" and bound: "unat (count q) < 2 ^ 31"
    and ok: "needs_alloc q \<longrightarrow> \<not> heap_fails h"
  shows "\<exists>q'. data_queue_enqueue (Suc (Suc n)) h q d = Inr (0, q', if needs_alloc q then tl h else h) \<and>
           queue_contents q' = queue_contents q @ [d] \<and> queue_inv q' \<and> size_q q' \<noteq> 0 \<and>
           size_q q' = (if size_q q = 0 then 4
                        else if count q = size_q q then push_bit 1 (size_q q) else size_q q)"
proof (cases "size_q q = 0")
  case True
  with inv have q: "q = \<lparr>data = None, pos = 0, count = 0, size_q = 0\<rparr>" by (rule queue_inv_empty)
  from True ok have "\<not> heap_fails h" by (simp add: needs_alloc_def)
  then obtain j where al: "av_malloc h 4 = (Some (replicate 4 j), tl h)"
    using av_malloc_succeeds by blast
  let ?q1 = "\<lparr>data = Some (replicate 4 j), pos = 0, count = 0, size_q = 4 :: 32 word\<rparr>"
  have inv1: "queue_inv ?q1" using fresh_queue_inv [of 2 j] by simp
  have s1: "size_q ?q1 \<noteq> 0" by simp
  have lt: "count ?q1 < size_q ?q1" by simp
  have "data_queue_enqueue (Suc (Suc n)) h q d = data_queue_store d (tl h) ?q1"
    by (simp add: q data_queue_enqueue.simps data_queue_init_def al)
  then have "data_queue_enqueue (Suc (Suc n)) h q d = Inr (0, stored d ?q1, tl h)"
    using store_nonfull(1) [OF inv1 s1 lt] by simp
  moreover have "queue_contents (stored d ?q1) = queue_contents q @ [d]"
    using store_nonfull(2) [OF inv1 s1 lt] by (simp add: q queue_contents_def)
  moreover have "queue_inv (stored d ?q1)" by (rule store_nonfull(3) [OF inv1 s1 lt])
  ultimately show ?thesis using True by (auto simp: needs_alloc_def)
next
  case s0: False
  then obtain arr where arr: "data q = Some arr"
    using inv by (auto simp: queue_inv_def split: option.splits)
  from inv arr obtain k where k: "2 \<le> k" "k < 32" and sz: "size_q q = 2 ^ k"
    and usz: "unat (size_q q) = 2 ^ k" and c: "count q \<le> size_q q"
    by (rule queue_inv_SomeD)
  show ?thesis
  proof (cases "count q = size_q q")
    case False
    then have lt: "count q < size_q q" using c by simp
    have "data_queue_enqueue (Suc (Suc n)) h q d = Inr (0, stored d q, h)"
      using enqueue_nonfull [OF s0 False] store_nonfull(1) [OF inv s0 lt] by simp
    then show ?thesis
      using store_nonfull(2,3) [OF inv s0 lt] s0 False by (auto simp: needs_alloc_def)
  next
    case full: True
    have p31: "(2::nat) ^ k < 2 ^ 31" using bound full usz by simp
    have k31: "k < 31"
    proof (rule power_less_imp_less_exp)
      show "(1::nat) < 2" by simp
      show "(2::nat) ^ k < 2 ^ 31" by (rule p31)
    qed
    have dbl: "push_bit 1 (size_q q) = (2 ^ Suc k :: 32 word)" by (simp add: sz push_bit_eq_mult)
    have ud: "unat (2 ^ Suc k :: 32 word) = 2 ^ Suc k" using k31 by (intro unat_2p32) simp
    from full ok have "\<not> heap_fails h" by (simp add: needs_alloc_def)
    then obtain j where al: "av_malloc h (unat (2 ^ Suc k :: 32 word)) = (Some (replicate (unat (2 ^ Suc k :: 32 word)) j), tl h)"
      using av_malloc_succeeds by blast
    let ?nq = "\<lparr>data = Some (replicate (unat (2 ^ Suc k :: 32 word)) j), pos = 0, count = 0, size_q = 2 ^ Suc k :: 32 word\<rparr>"
    have invn: "queue_inv ?nq" using k k31 by (intro fresh_queue_inv) simp_all
    have sn: "size_q ?nq \<noteq> 0" using ud by (metis NvencDataList.select_convs(4) power_not_zero unat_0 zero_neq_numeral)
    have room: "unat (count ?nq) + unat (count q) < unat (size_q ?nq)"
      using full usz ud by simp
    from requeue_moves [OF inv s0 invn sn room, of n "tl h"] obtain q' nq' where
      r: "requeue (data_queue_enqueue (Suc n)) (tl h) q ?nq = Inr (q', nq', tl h)" and
      rc: "queue_contents nq' = queue_contents ?nq @ queue_contents q" and
      ri: "queue_inv nq'" and rs: "size_q nq' = size_q ?nq" and
      rn: "unat (count nq') = unat (count ?nq) + unat (count q)"
      by blast
    have s1: "size_q nq' \<noteq> 0" using rs sn by simp
    have lt: "count nq' < size_q nq'" using rn rs full usz ud by (simp add: word_less_nat_alt)
    have "data_queue_enqueue (Suc (Suc n)) h q d = data_queue_store d (tl h) nq'"
    proof (rule enqueue_full_unfold [OF s0 full])
      show "av_malloc h (unat (push_bit 1 (size_q q) :: 32 word)) =
              (Some (replicate (unat (2 ^ Suc k :: 32 word)) j), tl h)"
        unfolding dbl by (rule al)
      show "requeue (data_queue_enqueue (Suc n)) (tl h) q
              \<lparr>data = Some (replicate (unat (2 ^ Suc k :: 32 word)) j), pos = 0, count = 0,
                 size_q = push_bit 1 (size_q q)\<rparr> = Inr (q', nq', tl h)"
        unfolding dbl by (rule r)
    qed
    then have "data_queue_enqueue (Suc (Suc n)) h q d = Inr (0, stored d nq', tl h)"
      using store_nonfull(1) [OF ri s1 lt] by simp
    moreover have "queue_contents (stored d nq') = queue_contents q @ [d]"
      using store_nonfull(2) [OF ri s1 lt] rc by (simp add: fresh_queue_contents)
    moreover have "queue_inv (stored d nq')" by (rule store_nonfull(3) [OF ri s1 lt])
    moreover have "size_q (stored d nq') = push_bit 1 (size_q q)" using rs dbl by simp
    ultimately show ?thesis using s0 s1 full by (auto simp: needs_alloc_def)
  qed
qed

subsection \<open>Sequences of operations\<close>

lemma queue_contents_length: "queue_inv q \<Longrightarrow> length (queue_contents q) = unat (count q)"
  by (auto simp: queue_contents_def queue_inv_def split: option.splits)

lemma enomem_nonzero: "AVERROR_ENOMEM \<noteq> 0"
  by (simp add: AVERROR_ENOMEM_def)

lemma run_queue_ops_fifo:
  assumes "queue_inv q" and "unat (count q) + length ops < 2 ^ 31"
  shows "case run_queue_ops (Suc (Suc n)) h q ops of
           Inl f \<Rightarrow> f = AssertFailed \<and> size_q q = 0
         | Inr (es, q', h') \<Rightarrow>
             fifo_events (queue_contents q) es = Some (queue_contents q') \<and> queue_inv q'"
  using assms
proof (induction ops arbitrary: q h)
  case Nil
  then show ?case by simp
next
  case (Cons op ops)
  show ?case
  proof (cases op)
    case (Enqueue x)
    show ?thesis
    proof (cases "needs_alloc q \<and> heap_fails h")
      case True
      then have e: "data_queue_enqueue (Suc (Suc n)) h q x = Inr (AVERROR_ENOMEM, q, tl h)"
        using Cons.prems(1) by (simp add: enqueue_alloc_fails)
      have "unat (count q) + length ops < 2 ^ 31" using Cons.prems(2) by simp
      from Cons.IH [OF Cons.prems(1) this, of "tl h"] show ?thesis
        by (auto simp add: Enqueue e enomem_nonzero split: sum.splits)
    next
      case False
      have b: "unat (count q) < 2 ^ 31" using Cons.prems(2) by simp
      from False have "needs_alloc q \<longrightarrow> \<not> heap_fails h" by simp
      from enqueue_succeeds [OF Cons.prems(1) b this, of n x] obtain q' where
        e: "data_queue_enqueue (Suc (Suc n)) h q x = Inr (0, q', if needs_alloc q then tl h else h)"
        and c: "queue_contents q' = queue_contents q @ [x]" and i: "queue_inv q'"
        and s: "size_q q' \<noteq> 0"
        by blast
      have "length (queue_contents q') = Suc (length (queue_contents q))" using c by simp
      then have "unat (count q') = Suc (unat (count q))"
        using i Cons.prems(1) by (simp add: queue_contents_length)
      then have "unat (count q') + length ops < 2 ^ 31" using Cons.prems(2) by simp
      from Cons.IH [OF i this, of "if needs_alloc q then tl h else h"] show ?thesis
        using s by (auto simp add: Enqueue e c split: sum.splits)
    qed
  next
    case Dequeue
    show ?thesis
    proof (cases "size_q q = 0")
      case True
      then show ?thesis by (simp add: Dequeue data_queue_dequeue_def)
    next
      case s0: False
      then have d: "data q \<noteq> None" using Cons.prems(1)
        by (auto simp: queue_inv_def split: option.splits)
      show ?thesis
      proof (cases "count q = 0")
        case True
        have e: "data_queue_dequeue q = Inr (None, q)" using s0 d True by (rule dequeue_empty)
        have c: "queue_contents q = []"
          using True by (simp add: queue_contents_def split: option.splits)
        have "unat (count q) + length ops < 2 ^ 31" using Cons.prems(2) by simp
        from Cons.IH [OF Cons.prems(1) this, of h] show ?thesis
          using s0 by (auto simp add: Dequeue e c split: sum.splits)
      next
        case False
        let ?q1 = "q\<lparr>count := count q - 1\<rparr>"
        from dequeue_nonempty [OF Cons.prems(1) False] obtain x where
          e: "data_queue_dequeue q = Inr (Some x, ?q1)" and
          c: "queue_contents q = x # queue_contents ?q1" and i: "queue_inv ?q1"
          by blast
        have "unat (count ?q1) \<le> unat (count q)" using False by (simp add: unat_minus_one)
        then have "unat (count ?q1) + length ops < 2 ^ 31" using Cons.prems(2) by simp
        from Cons.IH [OF i this, of h] show ?thesis
          using s0 by (auto simp add: Dequeue e c split: sum.splits)
      qed
    qed
  qed
qed


lemma emit_refines:
  "run_refines R S \<Longrightarrow> run_refines (emit e R) (emit e S)"
  by (auto simp: run_refines_def emit_def split: sum.splits)

lemma run_queue_ops_emit:
  "run_queue_ops n h q (Enqueue x # ops) =
     (case data_queue_enqueue n h q x of
        Inl f \<Rightarrow> Inl f
      | Inr (rc, q', h') \<Rightarrow> emit (Enqueued x rc) (run_queue_ops n h' q' ops))"
  "run_queue_ops n h q (Dequeue # ops) =
     (case data_queue_dequeue q of
        Inl f \<Rightarrow> Inl f
      | Inr (r, q') \<Rightarrow> emit (Dequeued r) (run_queue_ops n h q' ops))"
  by (simp_all add: emit_def split: sum.splits prod.splits)

lemma unat_double:
  fixes x :: "32 word"
  assumes "unat x < 2 ^ 31"
  shows "unat (push_bit 1 x) = 2 * unat x"
proof -
  have "unat x * unat (2 :: 32 word) < 2 ^ LENGTH(32)" using assms by simp
  then have "unat (x * 2) = unat x * unat (2 :: 32 word)" by (simp only: unat_mult_lem)
  then show ?thesis by (simp add: push_bit_eq_mult)
qed

lemma needs_alloc_spec:
  assumes "queue_inv q"
  shows "needs_alloc q \<longleftrightarrow>
         unat (size_q q) = 0 \<or> length (queue_contents q) = unat (size_q q)"
proof -
  have "count q = size_q q \<longleftrightarrow> unat (count q) = unat (size_q q)"
    by (rule word_unat_eq_iff)
  moreover have "size_q q = 0 \<longleftrightarrow> unat (size_q q) = 0" by (simp add: unat_eq_0)
  ultimately show ?thesis
    unfolding needs_alloc_def queue_contents_length [OF assms] by simp
qed

lemma run_queue_ops_spec:
  assumes "queue_inv q" and "unat (count q) + length ops < 2 ^ 31"
  shows "run_refines (run_queue_ops (Suc (Suc n)) h q ops)
           (spec_fifo_run h (queue_contents q) (unat (size_q q)) ops)"
  using assms
proof (induction ops arbitrary: q h)
  case Nil
  then show ?case by (simp add: run_refines_def)
next
  case (Cons op ops)
  note na = needs_alloc_spec [OF Cons.prems(1)]
  show ?case
  proof (cases op)
    case (Enqueue x)
    show ?thesis
    proof (cases "needs_alloc q \<and> heap_fails h")
      case True
      then have e: "data_queue_enqueue (Suc (Suc n)) h q x = Inr (AVERROR_ENOMEM, q, tl h)"
        using Cons.prems(1) by (simp add: enqueue_alloc_fails)
      have "unat (count q) + length ops < 2 ^ 31" using Cons.prems(2) by simp
      from Cons.IH [OF Cons.prems(1) this, of "tl h"]
      have "run_refines (emit (Enqueued x AVERROR_ENOMEM) (run_queue_ops (Suc (Suc n)) (tl h) q ops))
              (emit (Enqueued x AVERROR_ENOMEM)
                 (spec_fifo_run (tl h) (queue_contents q) (unat (size_q q)) ops))"
        by (rule emit_refines)
      then show ?thesis
        using True na unfolding Enqueue run_queue_ops_emit e by simp
    next
      case False
      have b: "unat (count q) < 2 ^ 31" using Cons.prems(2) by simp
      from False have "needs_alloc q \<longrightarrow> \<not> heap_fails h" by simp
      from enqueue_succeeds [OF Cons.prems(1) b this, of n x] obtain q' where
        e: "data_queue_enqueue (Suc (Suc n)) h q x = Inr (0, q', if needs_alloc q then tl h else h)"
        and c: "queue_contents q' = queue_contents q @ [x]" and i: "queue_inv q'"
        and sz: "size_q q' = (if size_q q = 0 then 4
                        else if count q = size_q q then push_bit 1 (size_q q) else size_q q)"
        by blast
      have "length (queue_contents q') = Suc (length (queue_contents q))" using c by simp
      then have "unat (count q') = Suc (unat (count q))"
        using i Cons.prems(1) by (simp add: queue_contents_length)
      then have b': "unat (count q') + length ops < 2 ^ 31" using Cons.prems(2) by simp
      have usz: "unat (size_q q') =
                   (if needs_alloc q then (if unat (size_q q) = 0 then 4 else 2 * unat (size_q q))
                    else unat (size_q q))"
      proof (cases "size_q q = 0")
        case True
        then show ?thesis using sz by (simp add: needs_alloc_def)
      next
        case s0: False
        show ?thesis
        proof (cases "count q = size_q q")
          case True
          then have "unat (size_q q) < 2 ^ 31" using b by simp
          then have "unat (push_bit 1 (size_q q)) = 2 * unat (size_q q)" by (rule unat_double)
          then show ?thesis using sz s0 True by (simp add: needs_alloc_def unat_eq_0)
        next
          case False
          then show ?thesis using sz s0 by (simp add: needs_alloc_def)
        qed
      qed
      from Cons.IH [OF i b', of "if needs_alloc q then tl h else h"]
      have "run_refines
              (emit (Enqueued x 0)
                 (run_queue_ops (Suc (Suc n)) (if needs_alloc q then tl h else h) q' ops))
              (emit (Enqueued x 0)
                 (spec_fifo_run (if needs_alloc q then tl h else h) (queue_contents q')
                    (unat (size_q q')) ops))"
        by (rule emit_refines)
      then show ?thesis
        using False na unfolding Enqueue run_queue_ops_emit e c usz by auto
    qed
  next
    case Dequeue
    show ?thesis
    proof (cases "size_q q = 0")
      case True
      then show ?thesis
        by (simp add: Dequeue data_queue_dequeue_def run_refines_def)
    next
      case s0: False
      then have d: "data q \<noteq> None" using Cons.prems(1)
        by (auto simp: queue_inv_def split: option.splits)
      have u0: "unat (size_q q) \<noteq> 0" using s0 by (simp add: unat_eq_0)
      show ?thesis
      proof (cases "count q = 0")
        case True
        have e: "data_queue_dequeue q = Inr (None, q)" using s0 d True by (rule dequeue_empty)
        have c: "queue_contents q = []"
          using True by (simp add: queue_contents_def split: option.splits)
        have "unat (count q) + length ops < 2 ^ 31" using Cons.prems(2) by simp
        from Cons.IH [OF Cons.prems(1) this, of h]
        have "run_refines (emit (Dequeued None) (run_queue_ops (Suc (Suc n)) h q ops))
                (emit (Dequeued None) (spec_fifo_run h (queue_contents q) (unat (size_q q)) ops))"
          by (rule emit_refines)
        then show ?thesis
          using u0 unfolding Dequeue run_queue_ops_emit e by (simp add: c)
      next
        case False
        let ?q1 = "q\<lparr>count := count q - 1\<rparr>"
        from dequeue_nonempty [OF Cons.prems(1) False] obtain x where
          e: "data_queue_dequeue q = Inr (Some x, ?q1)" and
          c: "queue_contents q = x # queue_contents ?q1" and i: "queue_inv ?q1"
          by blast
        have "unat (count ?q1) \<le> unat (count q)" using False by (simp add: unat_minus_one)
        then have "unat (count ?q1) + length ops < 2 ^ 31" using Cons.prems(2) by simp
        from Cons.IH [OF i this, of h]
        have "run_refines (emit (Dequeued (Some x)) (run_queue_ops (Suc (Suc n)) h ?q1 ops))
                (emit (Dequeued (Some x))
                   (spec_fifo_run h (queue_contents ?q1) (unat (size_q ?q1)) ops))"
          by (rule emit_refines)
        then show ?thesis
          using u0 unfolding Dequeue run_queue_ops_emit e by (simp add: c)
      qed
    qed
  qed
qed


text \<open>
  Claim C3.  For every sequence of enqueue and dequeue operations on a ring queue, run
  with any answers of the allocator, the code does exactly what the first-in-first-out
  list of the reference does (\<open>spec_fifo_run\<close>): every enqueue returns 0 and appends its
  value unless it needs a new array and the allocator refuses, every dequeue hands out
  the oldest value still queued, and the queue holds the reference's list afterwards.
  This includes every enqueue into a full queue, which moves the elements into an array
  of twice the size.  The run stops early only on the assertion of
  \<open>data_queue_dequeue\<close>, at a dequeue before any array was allocated.  Replayed on a
  list, the results are those of a first-in-first-out list (\<open>fifo_events\<close>).  The bound
  keeps the element count below \<open>2 ^ 31\<close>, beyond which the doubled size does not fit
  \<open>uint32_t\<close>.
\<close>

theorem C3_ring_queue_fifo:
  assumes "queue_inv q" and "unat (count q) + length ops < 2 ^ 31"
  shows "(case run_queue_ops (Suc (Suc n)) h q ops of
            Inl f \<Rightarrow>
              spec_fifo_run h (queue_contents q) (unat (size_q q)) ops = Inl f \<and>
              f = AssertFailed \<and> size_q q = 0
          | Inr (es, q', h') \<Rightarrow>
              spec_fifo_run h (queue_contents q) (unat (size_q q)) ops =
                Inr (es, queue_contents q', unat (size_q q'), h') \<and>
              fifo_events (queue_contents q) es = Some (queue_contents q') \<and> queue_inv q')"
  using run_queue_ops_spec [OF assms, of n h] run_queue_ops_fifo [OF assms, of n h]
  by (auto simp: run_refines_def split: sum.splits)

text \<open>
  A run that wraps around the four-slot array and then grows it to eight slots.
\<close>

lemma ring_queue_growth_run:
  "run_queue_ops 2 [Some 0, Some 0] (empty_queue :: int64_t NvencDataList)
     [Enqueue 10, Enqueue 11, Dequeue, Enqueue 12, Enqueue 13, Enqueue 14, Enqueue 15,
      Dequeue, Dequeue, Dequeue, Dequeue, Dequeue, Dequeue] =
   Inr ([Enqueued 10 0, Enqueued 11 0, Dequeued (Some 10), Enqueued 12 0, Enqueued 13 0,
         Enqueued 14 0, Enqueued 15 0, Dequeued (Some 11), Dequeued (Some 12),
         Dequeued (Some 13), Dequeued (Some 14), Dequeued (Some 15), Dequeued None],
        \<lparr>data = Some [11, 12, 13, 14, 15, 0, 0, 0], pos = 5, count = 0, size_q = 8\<rparr>, [])"
  by code_simp

lemma ring_queue_growth_spec:
  "spec_fifo_run [Some 0, Some 0] ([] :: int64_t list) 0
     [Enqueue 10, Enqueue 11, Dequeue, Enqueue 12, Enqueue 13, Enqueue 14, Enqueue 15,
      Dequeue, Dequeue, Dequeue, Dequeue, Dequeue, Dequeue] =
   Inr ([Enqueued 10 0, Enqueued 11 0, Dequeued (Some 10), Enqueued 12 0, Enqueued 13 0,
         Enqueued 14 0, Enqueued 15 0, Dequeued (Some 11), Dequeued (Some 12),
         Dequeued (Some 13), Dequeued (Some 14), Dequeued (Some 15), Dequeued None],
        [], 8, [])"
  by code_simp

lemma empty_queue_inv: "queue_inv empty_queue"
  by (simp add: queue_inv_def empty_queue_def)

theorem C3_ring_queue_fifo_witness:
  "queue_inv (empty_queue :: int64_t NvencDataList) \<and>
   unat (count (empty_queue :: int64_t NvencDataList)) +
     length [Enqueue 10, Enqueue 11, Dequeue, Enqueue 12, Enqueue 13, Enqueue 14, Enqueue (15 :: int64_t),
      Dequeue, Dequeue, Dequeue, Dequeue, Dequeue, Dequeue] < 2 ^ 31 \<and>
   run_queue_ops 2 [Some 0, Some 0] (empty_queue :: int64_t NvencDataList)
     [Enqueue 10, Enqueue 11, Dequeue, Enqueue 12, Enqueue 13, Enqueue 14, Enqueue 15,
      Dequeue, Dequeue, Dequeue, Dequeue, Dequeue, Dequeue] =
   Inr ([Enqueued 10 0, Enqueued 11 0, Dequeued (Some 10), Enqueued 12 0, Enqueued 13 0,
         Enqueued 14 0, Enqueued 15 0, Dequeued (Some 11), Dequeued (Some 12),
         Dequeued (Some 13), Dequeued (Some 14), Dequeued (Some 15), Dequeued None],
        \<lparr>data = Some [11, 12, 13, 14, 15, 0, 0, 0], pos = 5, count = 0, size_q = 8\<rparr>, []) \<and>
   spec_fifo_run [Some 0, Some 0] (queue_contents (empty_queue :: int64_t NvencDataList))
     (unat (size_q (empty_queue :: int64_t NvencDataList)))
     [Enqueue 10, Enqueue 11, Dequeue, Enqueue 12, Enqueue 13, Enqueue 14, Enqueue 15,
      Dequeue, Dequeue, Dequeue, Dequeue, Dequeue, Dequeue] =
   Inr ([Enqueued 10 0, Enqueued 11 0, Dequeued (Some 10), Enqueued 12 0, Enqueued 13 0,
         Enqueued 14 0, Enqueued 15 0, Dequeued (Some 11), Dequeued (Some 12),
         Dequeued (Some 13), Dequeued (Some 14), Dequeued (Some 15), Dequeued None],
        [], 8, []) \<and>
   fifo_events (queue_contents (empty_queue :: int64_t NvencDataList))
     [Enqueued 10 0, Enqueued 11 0, Dequeued (Some 10), Enqueued 12 0, Enqueued 13 0,
      Enqueued 14 0, Enqueued 15 0, Dequeued (Some 11), Dequeued (Some 12),
      Dequeued (Some 13), Dequeued (Some 14), Dequeued (Some 15), Dequeued None] = Some []"
proof -
  have i: "queue_inv (empty_queue :: int64_t NvencDataList)" by (rule empty_queue_inv)
  have b: "unat (count (empty_queue :: int64_t NvencDataList)) +
     length [Enqueue 10, Enqueue 11, Dequeue, Enqueue 12, Enqueue 13, Enqueue 14, Enqueue (15 :: int64_t),
      Dequeue, Dequeue, Dequeue, Dequeue, Dequeue, Dequeue] < 2 ^ 31"
    by (simp add: empty_queue_def)
  have r: "run_queue_ops (Suc (Suc 0)) [Some 0, Some 0] (empty_queue :: int64_t NvencDataList)
     [Enqueue 10, Enqueue 11, Dequeue, Enqueue 12, Enqueue 13, Enqueue 14, Enqueue 15,
      Dequeue, Dequeue, Dequeue, Dequeue, Dequeue, Dequeue] =
   Inr ([Enqueued 10 0, Enqueued 11 0, Dequeued (Some 10), Enqueued 12 0, Enqueued 13 0,
         Enqueued 14 0, Enqueued 15 0, Dequeued (Some 11), Dequeued (Some 12),
         Dequeued (Some 13), Dequeued (Some 14), Dequeued (Some 15), Dequeued None],
        \<lparr>data = Some [11, 12, 13, 14, 15, 0, 0, 0], pos = 5, count = 0, size_q = 8\<rparr>, [])"
    using ring_queue_growth_run by (simp only: numeral_2_eq_2)
  have c: "queue_contents \<lparr>data = Some [11, 12, 13, 14, 15, 0, 0, 0 :: int64_t], pos = 5, count = 0, size_q = 8\<rparr> = []"
    by (simp add: queue_contents_def)
  from C3_ring_queue_fifo [OF i b, where n = 0 and h = "[Some 0, Some 0]"]
  show ?thesis
    using i b ring_queue_growth_run unfolding r by (simp add: c)
qed


text \<open>
  Claim C8.  An enqueue whose allocation fails, be it the first array of an empty queue
  or the doubled array of a full one, returns \<open>AVERROR(ENOMEM)\<close> and leaves the queue
  as it was: the same struct, hence the same stored values, count and capacity.
\<close>

theorem C8_failed_enqueue_keeps_queue:
  assumes "queue_inv q" and "needs_alloc q" and "heap_fails h"
  shows "\<exists>q' h'. data_queue_enqueue (Suc n) h q d = Inr (AVERROR_ENOMEM, q', h') \<and>
           q' = q \<and> queue_contents q' = queue_contents q \<and>
           count q' = count q \<and> size_q q' = size_q q"
  using enqueue_alloc_fails [OF assms] by simp

lemma full_queue_inv:
  "queue_inv \<lparr>data = Some [1, 2, 3, 4 :: int64_t], pos = 0, count = 4, size_q = 4\<rparr>"
proof -
  have "(4 :: 32 word) = 2 ^ 2" by simp
  moreover have "(2 :: nat) \<in> {2..31}" by simp
  ultimately have "\<exists>k \<in> {2..31}. (4 :: 32 word) = 2 ^ k" by blast
  then show ?thesis by (simp add: queue_inv_def)
qed

theorem C8_failed_enqueue_keeps_queue_witness:
  "queue_inv \<lparr>data = Some [1, 2, 3, 4 :: int64_t], pos = 0, count = 4, size_q = 4\<rparr> \<and>
   needs_alloc \<lparr>data = Some [1, 2, 3, 4 :: int64_t], pos = 0, count = 4, size_q = 4\<rparr> \<and>
   heap_fails [None :: int64_t option] \<and>
   data_queue_enqueue (Suc 0) [None] \<lparr>data = Some [1, 2, 3, 4 :: int64_t], pos = 0, count = 4, size_q = 4\<rparr> 5
     = Inr (AVERROR_ENOMEM, \<lparr>data = Some [1, 2, 3, 4], pos = 0, count = 4, size_q = 4\<rparr>, [])"
proof -
  let ?q = "\<lparr>data = Some [1, 2, 3, 4 :: int64_t], pos = 0, count = 4, size_q = 4\<rparr>"
  have i: "queue_inv ?q" by (rule full_queue_inv)
  have a: "needs_alloc ?q" by (simp add: needs_alloc_def)
  have f: "heap_fails [None :: int64_t option]" by (simp add: heap_fails_def)
  from C8_failed_enqueue_keeps_queue [OF i a f, of 0 5] have
    "data_queue_enqueue (Suc 0) [None] ?q 5 = Inr (AVERROR_ENOMEM, ?q, [])"
    by (auto simp: data_queue_enqueue.simps data_queue_init_def)
  with i a f show ?thesis by simp
qed

text \<open>
  Claim C7 as stated fails on the queue that has never been enqueued into: its count is
  zero, and \<open>data_queue_dequeue\<close> stops at \<open>av_assert0(queue->size)\<close> instead of
  returning the sentinel.
\<close>

theorem C7_dequeue_unallocated_counterexample:
  "count (empty_queue :: int64_t NvencDataList) = 0 \<and>
   data_queue_dequeue (empty_queue :: int64_t NvencDataList) = Inl AssertFailed \<and>
   timestamp_queue_dequeue empty_queue = Inl AssertFailed"
  by (simp add: empty_queue_def data_queue_dequeue_def timestamp_queue_dequeue_def)

lemma dequeue_times_empty:
  "size_q q \<noteq> 0 \<Longrightarrow> data q \<noteq> None \<Longrightarrow> count q = 0 \<Longrightarrow>
   dequeue_times n q = Inr (replicate n None, q)"
  by (induction n) (simp_all add: dequeue_empty)

lemma timestamp_dequeue_empty:
  "size_q q \<noteq> 0 \<Longrightarrow> data q \<noteq> None \<Longrightarrow> count q = 0 \<Longrightarrow>
   timestamp_queue_dequeue q = Inr (AV_NOPTS_VALUE, q)"
  by (simp add: timestamp_queue_dequeue_def dequeue_empty)

lemma timestamp_dequeue_times_empty:
  "size_q q \<noteq> 0 \<Longrightarrow> data q \<noteq> None \<Longrightarrow> count q = 0 \<Longrightarrow>
   timestamp_dequeue_times n q = Inr (replicate n AV_NOPTS_VALUE, q)"
  by (induction n) (simp_all add: timestamp_dequeue_empty)

text \<open>
  Claim C7, amended.  On a queue with zero count whose array has been allocated
  (\<open>size\<close> non-zero, \<open>data\<close> non-null), a dequeue returns the sentinel (\<open>NULL\<close>, and
  \<open>AV_NOPTS_VALUE\<close> from \<open>timestamp_queue_dequeue\<close>) and leaves the queue unchanged, so
  the count stays zero; any number of further dequeues do the same.
\<close>

theorem C7_dequeue_empty_sentinel:
  assumes "size_q q \<noteq> 0" and "data q \<noteq> None" and "count q = 0"
    and "size_q t \<noteq> 0" and "data t \<noteq> None" and "count t = 0"
  shows "data_queue_dequeue q = Inr (None, q) \<and>
         dequeue_times n q = Inr (replicate n None, q) \<and>
         timestamp_queue_dequeue t = Inr (AV_NOPTS_VALUE, t) \<and>
         timestamp_dequeue_times n t = Inr (replicate n AV_NOPTS_VALUE, t)"
  using assms
  by (simp add: dequeue_empty dequeue_times_empty timestamp_dequeue_empty
        timestamp_dequeue_times_empty)

theorem C7_dequeue_empty_sentinel_witness:
  "size_q \<lparr>data = Some [7, 0, 0, 0 :: int64_t], pos = 1, count = 0, size_q = 4\<rparr> \<noteq> 0 \<and>
   data \<lparr>data = Some [7, 0, 0, 0 :: int64_t], pos = 1, count = 0, size_q = 4\<rparr> \<noteq> None \<and>
   count \<lparr>data = Some [7, 0, 0, 0 :: int64_t], pos = 1, count = 0, size_q = 4\<rparr> = 0 \<and>
   dequeue_times 3 \<lparr>data = Some [7, 0, 0, 0 :: int64_t], pos = 1, count = 0, size_q = 4\<rparr>
     = Inr ([None, None, None], \<lparr>data = Some [7, 0, 0, 0], pos = 1, count = 0, size_q = 4\<rparr>) \<and>
   timestamp_dequeue_times 3 \<lparr>data = Some [7, 0, 0, 0], pos = 1, count = 0, size_q = 4\<rparr>
     = Inr ([AV_NOPTS_VALUE, AV_NOPTS_VALUE, AV_NOPTS_VALUE],
            \<lparr>data = Some [7, 0, 0, 0], pos = 1, count = 0, size_q = 4\<rparr>)"
  using C7_dequeue_empty_sentinel
    [of "\<lparr>data = Some [7, 0, 0, 0 :: int64_t], pos = 1, count = 0, size_q = 4\<rparr>"
        "\<lparr>data = Some [7, 0, 0, 0], pos = 1, count = 0, size_q = 4\<rparr>" 3]
  by (simp add: numeral_3_eq_3)


section \<open>Surfaces, the codec context and the device\<close>

text \<open>
  The vendor header \<open>nvEncodeAPI.h\<close> and the libavcodec headers are outside the sources
  at hand.  Of their enumerations the model keeps the members that \<open>nvenc.c\<close> names and
  one more for all the others.
\<close>

datatype NVENCSTATUS = NV_ENC_SUCCESS | NV_ENC_ERR_NEED_MORE_INPUT | NV_ENC_ERR_GENERIC

datatype AVCodecID = AV_CODEC_ID_H264 | AV_CODEC_ID_H265 | AV_CODEC_ID_NONE

datatype NV_ENC_PIC_TYPE =
  NV_ENC_PIC_TYPE_IDR | NV_ENC_PIC_TYPE_I | NV_ENC_PIC_TYPE_P | NV_ENC_PIC_TYPE_B |
  NV_ENC_PIC_TYPE_BI | NV_ENC_PIC_TYPE_UNKNOWN

datatype AVPixelFormat = AV_PIX_FMT_YUV420P | AV_PIX_FMT_NV12 | AV_PIX_FMT_NONE

datatype NV_ENC_BUFFER_FORMAT = NV_ENC_BUFFER_FORMAT_NV12_PL | NV_ENC_BUFFER_FORMAT_UNDEFINED

text \<open>
  Of the structs the model keeps the fields that steer the control flow: the lock count
  and format of an input surface, the back pointer and busy flag of an output surface
  (\<open>input_surface = Some j\<close> points to \<open>ctx->input_surfaces[j]\<close>; \<open>output_surface\<close> says
  that the handle of the bitstream buffer is not null).
\<close>

record NvencInputSurface =
  lockCount :: int
  format :: NV_ENC_BUFFER_FORMAT

record NvencOutputSurface =
  output_surface :: bool
  input_surface :: "nat option"
  busy :: int

record NvencContext =
  frameIntervalP :: int32_t
  max_surface_count :: int32_t
  input_surfaces :: "NvencInputSurface list"
  output_surfaces :: "NvencOutputSurface list"
  output_surface_queue :: "surface_ptr NvencDataList"
  output_surface_ready_queue :: "surface_ptr NvencDataList"
  timestamp_list :: "int64_t NvencDataList"
  last_dts :: int64_t
  nvencoder :: bool
  cu_context :: bool
  nvenc_lib :: bool
  preset :: "string option"
  profile :: "string option"
  level :: "string option"
  tier :: "string option"
  twopass :: int
  buffer_delay :: int32_t

record AVCodecContext =
  codec_id :: AVCodecID
  width :: int32_t
  height :: int32_t
  gop_size :: int32_t
  max_b_frames :: int32_t
  global_header :: bool
  pix_fmt :: AVPixelFormat

record AVFrame =
  frame_pts :: int64_t
  frame_format :: AVPixelFormat

record AVPacket =
  pts :: int64_t
  dts :: int64_t
  key_flag :: bool

text \<open>
  What the driver and the allocator answer while one output surface is read back in
  \<open>process_output_surface\<close>.
\<close>

record BitstreamLock =
  slice_offsets_ok :: bool
  lock_status :: NVENCSTATUS
  alloc_packet_res :: int
  pictureType :: NV_ENC_PIC_TYPE
  outputTimeStamp :: int64_t

text \<open>
  \<open>process_output_surface\<close>, in three parts.  The code at the label \<open>error\<close> drops the
  oldest timestamp and returns \<open>res\<close>.
\<close>

definition process_output_error ::
  "NvencContext \<Rightarrow> int \<Rightarrow> AVPacket \<Rightarrow> fault + (int \<times> NvencContext \<times> AVPacket)" where
  "process_output_error ctx res pkt =
     (case timestamp_queue_dequeue (timestamp_list ctx) of
        Inl f \<Rightarrow> Inl f
      | Inr (t, tl1) \<Rightarrow> Inr (res, ctx\<lparr>timestamp_list := tl1\<rparr>, pkt))"

text \<open>
  The timestamps of the packet, from \<open>pkt->pts = lock_params.outputTimeStamp\<close> to
  \<open>ctx->last_dts = pkt->dts\<close>, and the successful return.
\<close>

definition process_output_timestamps ::
  "BitstreamLock \<Rightarrow> NvencContext \<Rightarrow> AVPacket \<Rightarrow> fault + (int \<times> NvencContext \<times> AVPacket)" where
  "process_output_timestamps dev ctx pkt =
     (case timestamp_queue_dequeue (timestamp_list ctx) of
        Inl f \<Rightarrow> Inl f
      | Inr (t, tl1) \<Rightarrow>
          let pkt1 = pkt\<lparr>pts := outputTimeStamp dev, dts := t\<rparr>;
              pkt2 = (if 2 \<le>s frameIntervalP ctx then pkt1\<lparr>dts := dts pkt1 - 1\<rparr> else pkt1);
              pkt3 = (if pts pkt2 <s dts pkt2 then pkt2\<lparr>dts := pts pkt2\<rparr> else pkt2);
              pkt4 = (if last_dts ctx \<noteq> AV_NOPTS_VALUE \<and> dts pkt3 \<le>s last_dts ctx
                      then pkt3\<lparr>dts := last_dts ctx + 1\<rparr> else pkt3)
          in Inr (0, ctx\<lparr>timestamp_list := tl1, last_dts := dts pkt4\<rparr>, pkt4))"

text \<open>
  The body up to the picture-type switch.  \<open>coded_frame_api\<close> is the value of the macro
  \<open>FF_API_CODED_FRAME\<close> (from a header outside the sources at hand), under which the
  switch has its cases other than \<open>IDR\<close> and its \<open>default\<close>.  For a codec other than
  H.264 and H.265 the first switch jumps to the label \<open>error\<close> before \<open>slice_offsets\<close> is
  assigned, and \<open>av_free(slice_offsets)\<close> there has no defined behaviour.  A failed
  allocation of \<open>slice_offsets\<close> returns at once, without passing the label \<open>error\<close>.
\<close>

definition process_output_surface ::
  "bool \<Rightarrow> AVCodecContext \<Rightarrow> BitstreamLock \<Rightarrow> NvencContext \<Rightarrow> AVPacket \<Rightarrow> surface_ptr \<Rightarrow>
   fault + (int \<times> NvencContext \<times> AVPacket)" where
  "process_output_surface coded_frame_api avctx dev ctx pkt tmpoutsurf =
     (if codec_id avctx \<noteq> AV_CODEC_ID_H264 \<and> codec_id avctx \<noteq> AV_CODEC_ID_H265
      then Inl UndefinedBehaviour
      else if \<not> slice_offsets_ok dev then Inr (AVERROR_ENOMEM, ctx, pkt)
      else case tmpoutsurf of
        None \<Rightarrow> Inl NullDeref
      | Some i \<Rightarrow>
          if length (output_surfaces ctx) \<le> i then Inl OutOfBounds
          else if lock_status dev \<noteq> NV_ENC_SUCCESS
          then process_output_error ctx AVERROR_EXTERNAL pkt
          else if alloc_packet_res dev \<noteq> 0
          then process_output_error ctx (alloc_packet_res dev) pkt
          else
            let pkt1 = (if pictureType dev = NV_ENC_PIC_TYPE_IDR
                        then pkt\<lparr>key_flag := True\<rparr> else pkt)
            in if coded_frame_api \<and>
                  pictureType dev \<notin> {NV_ENC_PIC_TYPE_IDR, NV_ENC_PIC_TYPE_I,
                     NV_ENC_PIC_TYPE_P, NV_ENC_PIC_TYPE_B, NV_ENC_PIC_TYPE_BI}
               then process_output_error ctx AVERROR_EXTERNAL pkt1
               else process_output_timestamps dev ctx pkt1)"

lemma sint_succ64:
  fixes x :: "64 word"
  assumes "x + 1 \<noteq> AV_NOPTS_VALUE"
  shows "sint (x + 1) = sint x + 1"
proof -
  have "x \<noteq> 0x7FFFFFFFFFFFFFFF"
    using assms by (auto simp: AV_NOPTS_VALUE_def)
  then have "sint x \<noteq> 0x7FFFFFFFFFFFFFFF"
    using word_eq_iff_signed [of x "0x7FFFFFFFFFFFFFFF"] by simp
  moreover have "sint x < 2 ^ (LENGTH(64) - 1)" by (rule sint_lt)
  ultimately have up: "sint x + 1 < 2 ^ 63" by simp
  have lo: "- (2 ^ 63) \<le> sint x + 1"
    using sint_ge [of x] by simp
  have "sint (x + 1) = signed_take_bit (LENGTH(64) - 1) (sint x + sint (1 :: 64 word))"
    by (rule sint_word_ariths)
  also have "\<dots> = sint x + 1"
    using lo up by (simp add: signed_take_bit_int_eq_self)
  finally show ?thesis .
qed

lemma dts_step_increases:
  fixes last d1 :: "64 word"
  assumes "(if d1 \<le>s last then last + 1 else d1) \<noteq> AV_NOPTS_VALUE"
  shows "last <s (if d1 \<le>s last then last + 1 else d1)"
  using assms by (auto simp: word_sless_alt word_sle_eq sint_succ64)


lemma averror_nonzero [simp]:
  "AVERROR_ENOMEM \<noteq> 0" "AVERROR_EINVAL \<noteq> 0" "AVERROR_EXTERNAL \<noteq> 0"
  "0 \<noteq> AVERROR_ENOMEM" "0 \<noteq> AVERROR_EINVAL" "0 \<noteq> AVERROR_EXTERNAL"
  by (simp_all add: AVERROR_ENOMEM_def AVERROR_EINVAL_def AVERROR_EXTERNAL_def)

lemma process_output_error_result:
  "process_output_error ctx res pkt = Inr (r, ctx', pkt') \<Longrightarrow>
   r = res \<and> (\<exists>tl1. ctx' = ctx\<lparr>timestamp_list := tl1\<rparr>)"
  by (auto simp: process_output_error_def split: sum.splits)

lemma process_output_timestamps_result:
  assumes "process_output_timestamps dev ctx pkt = Inr (r, ctx', pkt')"
  shows "r = 0 \<and>
         (\<exists>t tl1. timestamp_queue_dequeue (timestamp_list ctx) = Inr (t, tl1) \<and>
           ctx' = ctx\<lparr>timestamp_list := tl1, last_dts := dts pkt'\<rparr> \<and>
           pts pkt' = outputTimeStamp dev \<and>
           dts pkt' =
             (let d0 = (if 2 \<le>s frameIntervalP ctx then t - 1 else t);
                  d1 = (if outputTimeStamp dev <s d0 then outputTimeStamp dev else d0)
              in if last_dts ctx \<noteq> AV_NOPTS_VALUE \<and> d1 \<le>s last_dts ctx
                 then last_dts ctx + 1 else d1))"
  using assms
  by (auto simp: process_output_timestamps_def Let_def split: sum.splits)

lemma process_output_surface_cases:
  assumes "process_output_surface api avctx dev ctx pkt s = Inr (r, ctx', pkt')"
  shows "(r \<noteq> 0 \<and> (ctx' = ctx \<or> (\<exists>p. process_output_error ctx r p = Inr (r, ctx', pkt')))) \<or>
         (\<exists>p. process_output_timestamps dev ctx p = Inr (r, ctx', pkt'))"
  using assms unfolding process_output_surface_def Let_def
  by (auto split: if_splits option.splits dest: process_output_error_result)

lemma process_output_surface_success:
  assumes "process_output_surface api avctx dev ctx pkt s = Inr (0, ctx', pkt')"
  shows "\<exists>t tl1. timestamp_queue_dequeue (timestamp_list ctx) = Inr (t, tl1) \<and>
           ctx' = ctx\<lparr>timestamp_list := tl1, last_dts := dts pkt'\<rparr> \<and>
           pts pkt' = outputTimeStamp dev \<and>
           dts pkt' =
             (let d0 = (if 2 \<le>s frameIntervalP ctx then t - 1 else t);
                  d1 = (if outputTimeStamp dev <s d0 then outputTimeStamp dev else d0)
              in if last_dts ctx \<noteq> AV_NOPTS_VALUE \<and> d1 \<le>s last_dts ctx
                 then last_dts ctx + 1 else d1)"
  using process_output_surface_cases [OF assms] process_output_timestamps_result by blast

lemma process_output_surface_failure:
  assumes "process_output_surface api avctx dev ctx pkt s = Inr (r, ctx', pkt')" and "r \<noteq> 0"
  shows "\<exists>tl1. ctx' = ctx\<lparr>timestamp_list := tl1\<rparr>"
proof -
  from process_output_surface_cases [OF assms(1)] assms(2)
  have "ctx' = ctx \<or> (\<exists>p. process_output_error ctx r p = Inr (r, ctx', pkt'))"
    using process_output_timestamps_result by blast
  then show ?thesis
  proof
    assume "ctx' = ctx"
    then have "ctx' = ctx\<lparr>timestamp_list := timestamp_list ctx\<rparr>" by simp
    then show ?thesis by blast
  next
    assume "\<exists>p. process_output_error ctx r p = Inr (r, ctx', pkt')"
    then show ?thesis using process_output_error_result by blast
  qed
qed


fun retrieve_run ::
  "bool \<Rightarrow> AVCodecContext \<Rightarrow> (surface_ptr \<times> BitstreamLock) list \<Rightarrow> NvencContext \<Rightarrow> AVPacket \<Rightarrow>
   fault + (AVPacket list \<times> NvencContext)" where
  "retrieve_run api avctx [] ctx pkt = Inr ([], ctx)"
| "retrieve_run api avctx ((s, dev) # ds) ctx pkt =
     (case process_output_surface api avctx dev ctx pkt s of
        Inl f \<Rightarrow> Inl f
      | Inr (res, ctx', pkt') \<Rightarrow>
          (case retrieve_run api avctx ds ctx' pkt of
             Inl f \<Rightarrow> Inl f
           | Inr (ps, ctx'') \<Rightarrow> Inr (if res = 0 then pkt' # ps else ps, ctx'')))"

lemma sorted_wrt_sless_Cons:
  "sorted_wrt (<s) (b # xs) \<Longrightarrow> a <s b \<Longrightarrow> sorted_wrt (<s) (a # b # xs)"
  by (auto intro: signed.less_trans)

lemma process_output_surface_step:
  assumes ok: "process_output_surface api avctx dev ctx pkt s = Inr (0, ctx', pkt')"
    and set: "last_dts ctx \<noteq> AV_NOPTS_VALUE"
    and nowrap: "dts pkt' \<noteq> AV_NOPTS_VALUE"
  shows "last_dts ctx <s dts pkt'" and "last_dts ctx' = dts pkt'"
    and "dts pkt' \<le>s pts pkt' \<or> dts pkt' = last_dts ctx + 1"
proof -
  from process_output_surface_success [OF ok] obtain t tl1 where
    c: "ctx' = ctx\<lparr>timestamp_list := tl1, last_dts := dts pkt'\<rparr>" and
    p: "pts pkt' = outputTimeStamp dev" and
    d: "dts pkt' =
         (let d0 = (if 2 \<le>s frameIntervalP ctx then t - 1 else t);
              d1 = (if outputTimeStamp dev <s d0 then outputTimeStamp dev else d0)
          in if last_dts ctx \<noteq> AV_NOPTS_VALUE \<and> d1 \<le>s last_dts ctx
             then last_dts ctx + 1 else d1)"
    by blast
  define d1 where "d1 = (let d0 = (if 2 \<le>s frameIntervalP ctx then t - 1 else t)
     in if outputTimeStamp dev <s d0 then outputTimeStamp dev else d0)"
  have d': "dts pkt' = (if d1 \<le>s last_dts ctx then last_dts ctx + 1 else d1)"
    using d set by (simp add: d1_def Let_def)
  show "last_dts ctx <s dts pkt'"
    using nowrap unfolding d' by (rule dts_step_increases)
  show "last_dts ctx' = dts pkt'" using c by simp
  have "d1 \<le>s pts pkt'" by (auto simp: d1_def p Let_def)
  then show "dts pkt' \<le>s pts pkt' \<or> dts pkt' = last_dts ctx + 1"
    using d' by auto
qed

lemma retrieve_run_increasing:
  assumes "retrieve_run api avctx ds ctx pkt = Inr (ps, ctx')"
    and "last_dts ctx \<noteq> AV_NOPTS_VALUE"
    and "\<forall>p \<in> set ps. dts p \<noteq> AV_NOPTS_VALUE"
  shows "sorted_wrt (<s) (last_dts ctx # map dts ps) \<and>
         (\<forall>k < length ps. dts (ps ! k) \<le>s pts (ps ! k) \<or>
            dts (ps ! k) = (last_dts ctx # map dts ps) ! k + 1)"
  using assms
proof (induction ds arbitrary: ctx ps)
  case Nil
  then show ?case by simp
next
  case (Cons sd ds)
  obtain s dev where sd: "sd = (s, dev)" by (cases sd)
  from Cons.prems(1) obtain res ctx1 pkt1 ps1 where
    step: "process_output_surface api avctx dev ctx pkt s = Inr (res, ctx1, pkt1)" and
    rest: "retrieve_run api avctx ds ctx1 pkt = Inr (ps1, ctx')" and
    ps: "ps = (if res = 0 then pkt1 # ps1 else ps1)"
    by (auto simp: sd split: sum.splits)
  show ?case
  proof (cases "res = 0")
    case True
    then have ps': "ps = pkt1 # ps1" using ps by simp
    have nw: "dts pkt1 \<noteq> AV_NOPTS_VALUE" using Cons.prems(3) ps' by simp
    have ok: "process_output_surface api avctx dev ctx pkt s = Inr (0, ctx1, pkt1)"
      using step True by simp
    note st = process_output_surface_step [OF ok Cons.prems(2) nw]
    have l1: "last_dts ctx1 \<noteq> AV_NOPTS_VALUE" using st(2) nw by simp
    have "\<forall>p \<in> set ps1. dts p \<noteq> AV_NOPTS_VALUE" using Cons.prems(3) ps' by simp
    from Cons.IH [OF rest l1 this] have
      srt: "sorted_wrt (<s) (dts pkt1 # map dts ps1)" and
      cl: "\<forall>k < length ps1. dts (ps1 ! k) \<le>s pts (ps1 ! k) \<or>
            dts (ps1 ! k) = (dts pkt1 # map dts ps1) ! k + 1"
      using st(2) by simp_all
    have "sorted_wrt (<s) (last_dts ctx # dts pkt1 # map dts ps1)"
      using srt st(1) by (rule sorted_wrt_sless_Cons)
    moreover have "dts (ps ! k) \<le>s pts (ps ! k) \<or>
            dts (ps ! k) = (last_dts ctx # map dts ps) ! k + 1" if "k < length ps" for k
    proof (cases k)
      case 0
      then show ?thesis using st(3) ps' by simp
    next
      case (Suc j)
      then have "j < length ps1" using that ps' by simp
      with cl show ?thesis using Suc ps' by simp
    qed
    ultimately show ?thesis using ps' by simp
  next
    case False
    then have ps': "ps = ps1" using ps by simp
    from process_output_surface_failure [OF step False]
    have l1: "last_dts ctx1 = last_dts ctx" by auto
    from Cons.IH [OF rest] Cons.prems(2,3) show ?thesis by (simp add: l1 ps')
  qed
qed


section \<open>nvenc_encode_frame\<close>

text \<open>
  What the driver and the allocator answer during one call of \<open>nvenc_encode_frame\<close>.
  \<open>copy_res\<close> is the return value of \<open>nvenc_copy_to_inputbuffer\<close>, whose copies run
  through the macro \<open>__cu\<close> of a header outside the sources at hand.
\<close>

record EncodeDevice =
  map_status :: NVENCSTATUS
  mappedBufferFmt :: NV_ENC_BUFFER_FORMAT
  copy_res :: int
  unmap_status :: NVENCSTATUS
  encode_status :: NVENCSTATUS
  timestamp_heap :: "int64_t heap"
  surface_heap :: "surface_ptr heap"
  bitstream :: BitstreamLock

text \<open>
  How a part of the function ends: the process stops, the function returns a code with
  the context as it is then, or control passes on.
\<close>

datatype 'a flow = Abort fault | Return int NvencContext | Next 'a

text \<open>
  The two scans over the surface arrays, for \<open>i\<close> from 0 below \<open>max_surface_count\<close>:
  the first input surface with \<open>lockCount\<close> zero, the first output surface that is not
  busy.  \<open>None\<close> is a scan that ran to the end.
\<close>

fun first_free_input :: "NvencInputSurface list \<Rightarrow> nat list \<Rightarrow> fault + nat option" where
  "first_free_input surfaces [] = Inr None"
| "first_free_input surfaces (i # is) =
     (if length surfaces \<le> i then Inl OutOfBounds
      else if lockCount (surfaces ! i) = 0 then Inr (Some i)
      else first_free_input surfaces is)"

fun first_free_output :: "NvencOutputSurface list \<Rightarrow> nat list \<Rightarrow> fault + nat option" where
  "first_free_output surfaces [] = Inr None"
| "first_free_output surfaces (i # is) =
     (if length surfaces \<le> i then Inl OutOfBounds
      else if busy (surfaces ! i) = 0 then Inr (Some i)
      else first_free_output surfaces is)"

text \<open>
  The branch \<open>if (frame)\<close> up to the push of the presentation timestamp.  It passes on
  the context and the index \<open>i\<close> of the output surface it chose.
\<close>

definition nvenc_submit_frame ::
  "nat \<Rightarrow> EncodeDevice \<Rightarrow> AVCodecContext \<Rightarrow> NvencContext \<Rightarrow> AVFrame \<Rightarrow> (NvencContext \<times> nat) flow" where
  "nvenc_submit_frame n dev avctx ctx frame =
     (let range = [0..<nat (sint (max_surface_count ctx))]
      in case first_free_input (input_surfaces ctx) range of
        Inl f \<Rightarrow> Abort f
      | Inr None \<Rightarrow> Abort AssertFailed
      | Inr (Some j) \<Rightarrow>
          let ctx1 = ctx\<lparr>input_surfaces :=
                       (input_surfaces ctx)[j := (input_surfaces ctx ! j)\<lparr>lockCount := 1\<rparr>]\<rparr>
          in if map_status dev \<noteq> NV_ENC_SUCCESS then Return 0 ctx1
             else if format (input_surfaces ctx1 ! j) \<noteq> mappedBufferFmt dev then Return 0 ctx1
             else if copy_res dev \<noteq> 0 then Return 0 ctx1
             else if unmap_status dev \<noteq> NV_ENC_SUCCESS then Return AVERROR_EXTERNAL ctx1
             else case first_free_output (output_surfaces ctx1) range of
               Inl f \<Rightarrow> Abort f
             | Inr None \<Rightarrow>
                 Return AVERROR_EXTERNAL
                   (ctx1\<lparr>input_surfaces :=
                      (input_surfaces ctx1)[j := (input_surfaces ctx1 ! j)\<lparr>lockCount := 0\<rparr>]\<rparr>)
             | Inr (Some i) \<Rightarrow>
                 let ctx2 = ctx1\<lparr>output_surfaces :=
                              (output_surfaces ctx1)[i := (output_surfaces ctx1 ! i)\<lparr>input_surface := Some j\<rparr>]\<rparr>
                 in if codec_id avctx \<noteq> AV_CODEC_ID_H264 \<and> codec_id avctx \<noteq> AV_CODEC_ID_H265
                    then Return AVERROR_EINVAL ctx2
                    else case timestamp_queue_enqueue n (timestamp_heap dev) (timestamp_list ctx2)
                                (frame_pts frame) of
                      Inl f \<Rightarrow> Abort f
                    | Inr (res, tl1, h) \<Rightarrow>
                        if res \<noteq> 0 then Return res (ctx2\<lparr>timestamp_list := tl1\<rparr>)
                        else Next (ctx2\<lparr>timestamp_list := tl1\<rparr>, i))"

text \<open>
  The loop \<open>while (ctx->output_surface_queue.count)\<close> that moves the in-flight surfaces
  to the ready queue.  It returns the code of a failed enqueue, or 0 at the end.
\<close>

function move_to_ready ::
  "nat \<Rightarrow> surface_ptr heap \<Rightarrow> surface_ptr NvencDataList \<Rightarrow> surface_ptr NvencDataList \<Rightarrow>
   fault + (int \<times> surface_ptr NvencDataList \<times> surface_ptr NvencDataList \<times> surface_ptr heap)" where
  "move_to_ready n h queue ready =
     (if count queue = 0 then Inr (0, queue, ready, h)
      else case out_surf_queue_dequeue queue of
        Inl f \<Rightarrow> Inl f
      | Inr (tmpoutsurf, queue') \<Rightarrow>
          (case out_surf_queue_enqueue n h ready tmpoutsurf of
             Inl f \<Rightarrow> Inl f
           | Inr (res, ready', h') \<Rightarrow>
               if res \<noteq> 0 then Inr (res, queue', ready', h')
               else move_to_ready n h' queue' ready'))"
  by pat_completeness auto

termination move_to_ready
  by (relation "measure (\<lambda>(n, h, queue, ready). unat (count queue))")
     (auto simp: out_surf_queue_dequeue_def data_queue_dequeue_def Let_def unat_minus_one unat_gt_0
           split: if_splits option.splits sum.splits)

declare move_to_ready.simps [simp del]

text \<open>
  From the call of \<open>nvEncEncodePicture\<close> to the emission gate: the bookkeeping of the
  output surface of this call and of the in-flight queue.  \<open>sub\<close> is \<open>Some i\<close> when a
  frame was passed and \<open>output_surfaces[i]\<close> was submitted with it.
\<close>

definition set_busy :: "NvencContext \<Rightarrow> nat \<Rightarrow> int \<Rightarrow> NvencContext" where
  "set_busy ctx i b =
     ctx\<lparr>output_surfaces := (output_surfaces ctx)[i := (output_surfaces ctx ! i)\<lparr>busy := b\<rparr>]\<rparr>"

definition nvenc_queue_output ::
  "nat \<Rightarrow> EncodeDevice \<Rightarrow> NvencContext \<Rightarrow> nat option \<Rightarrow> NvencContext flow" where
  "nvenc_queue_output n dev ctx sub =
     (let nv_status = encode_status dev;
          held =
            (case sub of
               Some i \<Rightarrow>
                 if nv_status = NV_ENC_ERR_NEED_MORE_INPUT then
                   (case out_surf_queue_enqueue n (surface_heap dev) (output_surface_queue ctx) (Some i) of
                      Inl f \<Rightarrow> Abort f
                    | Inr (res, q1, h) \<Rightarrow>
                        if res \<noteq> 0 then Return res (ctx\<lparr>output_surface_queue := q1\<rparr>)
                        else Next (set_busy (ctx\<lparr>output_surface_queue := q1\<rparr>) i 1, h))
                 else Next (ctx, surface_heap dev)
             | None \<Rightarrow> Next (ctx, surface_heap dev))
      in case held of
        Abort f \<Rightarrow> Abort f
      | Return res c \<Rightarrow> Return res c
      | Next (ctx1, h1) \<Rightarrow>
          if nv_status \<noteq> NV_ENC_SUCCESS \<and> nv_status \<noteq> NV_ENC_ERR_NEED_MORE_INPUT
          then Return AVERROR_EXTERNAL ctx1
          else if nv_status \<noteq> NV_ENC_ERR_NEED_MORE_INPUT then
            (case move_to_ready n h1 (output_surface_queue ctx1) (output_surface_ready_queue ctx1) of
               Inl f \<Rightarrow> Abort f
             | Inr (res, q1, r1, h2) \<Rightarrow>
                 let ctx2 = ctx1\<lparr>output_surface_queue := q1, output_surface_ready_queue := r1\<rparr>
                 in if res \<noteq> 0 then Return res ctx2
                    else case sub of
                      None \<Rightarrow> Next ctx2
                    | Some i \<Rightarrow>
                        (case out_surf_queue_enqueue n h2 (output_surface_ready_queue ctx2) (Some i) of
                           Inl f \<Rightarrow> Abort f
                         | Inr (res, r2, h3) \<Rightarrow>
                             if res \<noteq> 0 then Return res (ctx2\<lparr>output_surface_ready_queue := r2\<rparr>)
                             else Next (set_busy (ctx2\<lparr>output_surface_ready_queue := r2\<rparr>) i 1)))
          else Next ctx1)"

text \<open>
  The condition of the last \<open>if\<close>.  The sum of the two counts is an \<open>uint32_t\<close>, so the
  \<open>int\<close> \<open>buffer_delay\<close> is converted to unsigned for the comparison: on words, \<open>\<le>\<close>.
\<close>

definition emission_gate :: "NvencContext \<Rightarrow> bool \<Rightarrow> bool" where
  "emission_gate ctx has_frame =
     (count (output_surface_ready_queue ctx) \<noteq> 0 \<and>
      (\<not> has_frame \<or>
       buffer_delay ctx \<le> count (output_surface_ready_queue ctx) + count (output_surface_queue ctx)))"

text \<open>
  The branch taken when the gate passes: the oldest ready surface is read back into the
  packet and its surfaces are released.
\<close>

definition nvenc_retrieve ::
  "bool \<Rightarrow> EncodeDevice \<Rightarrow> AVCodecContext \<Rightarrow> NvencContext \<Rightarrow> AVPacket \<Rightarrow> int \<Rightarrow>
   fault + (int \<times> NvencContext \<times> AVPacket \<times> int)" where
  "nvenc_retrieve coded_frame_api dev avctx ctx pkt got_packet =
     (case out_surf_queue_dequeue (output_surface_ready_queue ctx) of
        Inl f \<Rightarrow> Inl f
      | Inr (tmpoutsurf, r1) \<Rightarrow>
          (case process_output_surface coded_frame_api avctx (bitstream dev)
                  (ctx\<lparr>output_surface_ready_queue := r1\<rparr>) pkt tmpoutsurf of
             Inl f \<Rightarrow> Inl f
           | Inr (res, ctx1, pkt1) \<Rightarrow>
               if res \<noteq> 0 then Inr (res, ctx1, pkt1, got_packet)
               else case tmpoutsurf of
                 None \<Rightarrow> Inl NullDeref
               | Some i \<Rightarrow>
                   if length (output_surfaces ctx1) \<le> i then Inl OutOfBounds
                   else
                     let ctx2 = set_busy ctx1 i 0
                     in case input_surface (output_surfaces ctx2 ! i) of
                       None \<Rightarrow> Inl NullDeref
                     | Some j \<Rightarrow>
                         if length (input_surfaces ctx2) \<le> j then Inl OutOfBounds
                         else if lockCount (input_surfaces ctx2 ! j) = 0 then Inl AssertFailed
                         else
                           Inr (0,
                                ctx2\<lparr>input_surfaces := (input_surfaces ctx2)
                                   [j := (input_surfaces ctx2 ! j)
                                      \<lparr>lockCount := lockCount (input_surfaces ctx2 ! j) - 1\<rparr>]\<rparr>,
                                pkt1, 1)))"

text \<open>
  \<open>nvenc_encode_frame\<close>.  \<open>frame = None\<close> is the call with a null frame.  First the
  part before the emission gate: the submission of the frame, if there is one, and the
  bookkeeping after \<open>nvEncEncodePicture\<close>.
\<close>

definition nvenc_before_gate ::
  "nat \<Rightarrow> EncodeDevice \<Rightarrow> AVCodecContext \<Rightarrow> NvencContext \<Rightarrow> AVFrame option \<Rightarrow> NvencContext flow" where
  "nvenc_before_gate n dev avctx ctx frame =
     (case frame of
        Some fr \<Rightarrow>
          (case nvenc_submit_frame n dev avctx ctx fr of
             Abort f \<Rightarrow> Abort f
           | Return res c \<Rightarrow> Return res c
           | Next (ctx1, i) \<Rightarrow> nvenc_queue_output n dev ctx1 (Some i))
      | None \<Rightarrow> nvenc_queue_output n dev ctx None)"

text \<open>
  Then the gate.  \<open>got_packet\<close> is the value that \<open>*got_packet\<close> holds on entry; the last
  component of the result is the value it holds on return.  A return before the gate
  leaves it as it was.
\<close>

definition nvenc_encode_frame ::
  "nat \<Rightarrow> bool \<Rightarrow> EncodeDevice \<Rightarrow> AVCodecContext \<Rightarrow> NvencContext \<Rightarrow> AVPacket \<Rightarrow> AVFrame option \<Rightarrow> int \<Rightarrow>
   fault + (int \<times> NvencContext \<times> AVPacket \<times> int)" where
  "nvenc_encode_frame n coded_frame_api dev avctx ctx pkt frame got_packet =
     (case nvenc_before_gate n dev avctx ctx frame of
        Abort f \<Rightarrow> Inl f
      | Return res c \<Rightarrow> Inr (res, c, pkt, got_packet)
      | Next ctx2 \<Rightarrow>
          if emission_gate ctx2 (frame \<noteq> None)
          then nvenc_retrieve coded_frame_api dev avctx ctx2 pkt got_packet
          else Inr (0, ctx2, pkt, 0))"


section \<open>Example contexts and device answers\<close>

text \<open>
  Concrete inputs for the evaluations below: an H.264 context of 1920 by 1080, a codec
  context as it is after one frame with presentation timestamp \<open>t\<close> was submitted and
  became ready (one B-frame configured, so \<open>frameIntervalP\<close> is 2 and \<open>last_dts\<close> started at
  \<open>-2\<close>), a freshly opened context with no delay, and device answers.
\<close>

definition h264_avctx :: AVCodecContext where
  "h264_avctx = \<lparr>codec_id = AV_CODEC_ID_H264, width = 1920, height = 1080, gop_size = 250,
     max_b_frames = 1, global_header = False, pix_fmt = AV_PIX_FMT_NV12\<rparr>"

definition one_ready_ctx :: "int64_t \<Rightarrow> NvencContext" where
  "one_ready_ctx t =
     \<lparr>frameIntervalP = 2, max_surface_count = 32,
      input_surfaces = (replicate 32 \<lparr>lockCount = 0, format = NV_ENC_BUFFER_FORMAT_NV12_PL\<rparr>)
         [0 := \<lparr>lockCount = 1, format = NV_ENC_BUFFER_FORMAT_NV12_PL\<rparr>],
      output_surfaces = (replicate 32 \<lparr>output_surface = True, input_surface = None, busy = 0\<rparr>)
         [0 := \<lparr>output_surface = True, input_surface = Some 0, busy = 1\<rparr>],
      output_surface_queue = empty_queue,
      output_surface_ready_queue = \<lparr>data = Some [Some 0, None, None, None], pos = 1, count = 1, size_q = 4\<rparr>,
      timestamp_list = \<lparr>data = Some [t, 0, 0, 0], pos = 1, count = 1, size_q = 4\<rparr>,
      last_dts = - 2, nvencoder = True, cu_context = True, nvenc_lib = True,
      preset = None, profile = None, level = None, tier = None, twopass = 0,
      buffer_delay = 31\<rparr>"

definition lock_ok :: "int64_t \<Rightarrow> BitstreamLock" where
  "lock_ok t = \<lparr>slice_offsets_ok = True, lock_status = NV_ENC_SUCCESS, alloc_packet_res = 0,
     pictureType = NV_ENC_PIC_TYPE_P, outputTimeStamp = t\<rparr>"

definition blank_packet :: AVPacket where
  "blank_packet = \<lparr>pts = 0, dts = 0, key_flag = False\<rparr>"

definition three_ts_ctx :: NvencContext where
  "three_ts_ctx = (one_ready_ctx 0)
     \<lparr>timestamp_list := \<lparr>data = Some [0, 1, 2, 0], pos = 3, count = 3, size_q = 4\<rparr>\<rparr>"

definition eos_device :: "BitstreamLock \<Rightarrow> EncodeDevice" where
  "eos_device lk = \<lparr>map_status = NV_ENC_SUCCESS, mappedBufferFmt = NV_ENC_BUFFER_FORMAT_NV12_PL,
     copy_res = 0, unmap_status = NV_ENC_SUCCESS, encode_status = NV_ENC_SUCCESS,
     timestamp_heap = [], surface_heap = [], bitstream = lk\<rparr>"

definition fresh_ctx :: NvencContext where
  "fresh_ctx =
     \<lparr>frameIntervalP = 1, max_surface_count = 32,
      input_surfaces = replicate 32 \<lparr>lockCount = 0, format = NV_ENC_BUFFER_FORMAT_NV12_PL\<rparr>,
      output_surfaces = replicate 32 \<lparr>output_surface = True, input_surface = None, busy = 0\<rparr>,
      output_surface_queue = empty_queue,
      output_surface_ready_queue = empty_queue,
      timestamp_list = empty_queue,
      last_dts = AV_NOPTS_VALUE, nvencoder = True, cu_context = True, nvenc_lib = True,
      preset = None, profile = None, level = None, tier = None, twopass = 0,
      buffer_delay = 0\<rparr>"

definition ready_device :: "int64_t \<Rightarrow> EncodeDevice" where
  "ready_device t = \<lparr>map_status = NV_ENC_SUCCESS, mappedBufferFmt = NV_ENC_BUFFER_FORMAT_NV12_PL,
     copy_res = 0, unmap_status = NV_ENC_SUCCESS, encode_status = NV_ENC_SUCCESS,
     timestamp_heap = [Some 0], surface_heap = [Some None], bitstream = lock_ok t\<rparr>"

definition frame0 :: AVFrame where
  "frame0 = \<lparr>frame_pts = 0, frame_format = AV_PIX_FMT_NV12\<rparr>"

definition fresh_ctx_submitted :: NvencContext where
  "fresh_ctx_submitted = fresh_ctx
     \<lparr>input_surfaces := (input_surfaces fresh_ctx)
        [0 := \<lparr>lockCount = 1, format = NV_ENC_BUFFER_FORMAT_NV12_PL\<rparr>],
      output_surfaces := (output_surfaces fresh_ctx)[0 := \<lparr>output_surface = True, input_surface = Some 0, busy = 1\<rparr>],
      output_surface_ready_queue :=
        \<lparr>data = Some [Some 0, None, None, None], pos = 1, count = 1, size_q = 4\<rparr>,
      timestamp_list := \<lparr>data = Some [0, 0, 0, 0], pos = 1, count = 1, size_q = 4\<rparr>\<rparr>"

definition fresh_ctx_retrieved :: NvencContext where
  "fresh_ctx_retrieved = fresh_ctx
     \<lparr>output_surfaces := (output_surfaces fresh_ctx)[0 := \<lparr>output_surface = True, input_surface = Some 0, busy = 0\<rparr>],
      output_surface_ready_queue :=
        \<lparr>data = Some [Some 0, None, None, None], pos = 1, count = 0, size_q = 4\<rparr>,
      timestamp_list := \<lparr>data = Some [0, 0, 0, 0], pos = 1, count = 0, size_q = 4\<rparr>,
      last_dts := 0\<rparr>"

section \<open>Decode timestamps (claims C2)\<close>

text \<open>
  Claim C2 as stated fails: the bump to \<open>last_dts + 1\<close> comes after the clamp to the
  presentation timestamp and can lift the decode timestamp above it.  With one B-frame
  configured and the first frame at presentation timestamp \<open>-5\<close>, the packet gets the
  decode timestamp \<open>-1\<close>.
\<close>

theorem C2_dts_above_pts_counterexample:
  "2 \<le>s frameIntervalP (one_ready_ctx (- 5)) \<and>
   process_output_surface True h264_avctx (lock_ok (- 5)) (one_ready_ctx (- 5)) blank_packet (Some 0)
     = Inr (0, (one_ready_ctx (- 5))
                 \<lparr>timestamp_list := \<lparr>data = Some [- 5, 0, 0, 0], pos = 1, count = 0, size_q = 4\<rparr>,
                  last_dts := - 1\<rparr>,
            \<lparr>pts = - 5, dts = - 1, key_flag = False\<rparr>) \<and>
   \<not> ((- 1 :: int64_t) \<le>s - 5)"
  by (simp add: process_output_surface_def process_output_timestamps_def one_ready_ctx_def
        h264_avctx_def lock_ok_def blank_packet_def timestamp_queue_dequeue_def
        data_queue_dequeue_def Let_def AV_NOPTS_VALUE_def word_sle_eq word_sless_alt)


text \<open>
  Claim C2, amended.  Over any run of \<open>process_output_surface\<close> calls that starts with
  \<open>last_dts\<close> set (as \<open>nvenc_encode_init\<close> leaves it when \<open>frameIntervalP\<close> is at least 2),
  the decode timestamps of the packets produced are strictly increasing, starting above
  \<open>last_dts\<close>, and each is at most the presentation timestamp of its packet or else is
  the previous decode timestamp plus one.  This holds as long as no decode timestamp
  wraps around to \<open>AV_NOPTS_VALUE\<close>, the value of \<open>INT64_MAX + 1\<close>.
\<close>

theorem C2_decode_timestamps_increase:
  assumes "retrieve_run api avctx ds ctx pkt = Inr (ps, ctx')"
    and "last_dts ctx \<noteq> AV_NOPTS_VALUE"
    and "\<forall>p \<in> set ps. dts p \<noteq> AV_NOPTS_VALUE"
  shows "sorted_wrt (<s) (last_dts ctx # map dts ps) \<and>
         (\<forall>k < length ps. dts (ps ! k) \<le>s pts (ps ! k) \<or>
            dts (ps ! k) = (last_dts ctx # map dts ps) ! k + 1)"
  using assms by (rule retrieve_run_increasing)

text \<open>
  Three frames at 0, 1, 2 that the device returns in the order I, P, B.
\<close>

lemma three_run:
  "retrieve_run True h264_avctx
     [(Some 0, lock_ok 0), (Some 0, lock_ok 2), (Some 0, lock_ok 1)] three_ts_ctx blank_packet
   = Inr ([\<lparr>pts = 0, dts = - 1, key_flag = False\<rparr>,
           \<lparr>pts = 2, dts = 0, key_flag = False\<rparr>,
           \<lparr>pts = 1, dts = 1, key_flag = False\<rparr>],
          three_ts_ctx\<lparr>timestamp_list := \<lparr>data = Some [0, 1, 2, 0], pos = 3, count = 0, size_q = 4\<rparr>,
                       last_dts := 1\<rparr>)"
  by (simp add: process_output_surface_def process_output_timestamps_def one_ready_ctx_def
        three_ts_ctx_def
        h264_avctx_def lock_ok_def blank_packet_def timestamp_queue_dequeue_def
        data_queue_dequeue_def Let_def AV_NOPTS_VALUE_def word_sle_eq word_sless_alt)

theorem C2_decode_timestamps_increase_witness:
  "last_dts three_ts_ctx \<noteq> AV_NOPTS_VALUE \<and>
   retrieve_run True h264_avctx
     [(Some 0, lock_ok 0), (Some 0, lock_ok 2), (Some 0, lock_ok 1)] three_ts_ctx blank_packet
   = Inr ([\<lparr>pts = 0, dts = - 1, key_flag = False\<rparr>,
           \<lparr>pts = 2, dts = 0, key_flag = False\<rparr>,
           \<lparr>pts = 1, dts = 1, key_flag = False\<rparr>],
          three_ts_ctx\<lparr>timestamp_list := \<lparr>data = Some [0, 1, 2, 0], pos = 3, count = 0, size_q = 4\<rparr>,
                       last_dts := 1\<rparr>) \<and>
   sorted_wrt (<s) [- 2, - 1, 0, 1 :: int64_t]"
proof -
  have l: "last_dts three_ts_ctx \<noteq> AV_NOPTS_VALUE"
    by (simp add: three_ts_ctx_def one_ready_ctx_def AV_NOPTS_VALUE_def)
  have n: "\<forall>p \<in> set [\<lparr>pts = 0, dts = - 1, key_flag = False\<rparr>,
           \<lparr>pts = 2, dts = 0, key_flag = False\<rparr>,
           \<lparr>pts = 1, dts = 1 :: int64_t, key_flag = False\<rparr>]. dts p \<noteq> AV_NOPTS_VALUE"
    by (simp add: AV_NOPTS_VALUE_def)
  have "last_dts three_ts_ctx = - 2" by (simp add: three_ts_ctx_def one_ready_ctx_def)
  with C2_decode_timestamps_increase [OF three_run l n] l three_run show ?thesis by simp
qed

section \<open>The emission gate (claim C1)\<close>

text \<open>
  Claim C1 as stated fails: on a flush call with one ready surface the gate passes, but
  the driver refuses to lock the bitstream, \<open>process_output_surface\<close> fails, and the call
  returns \<open>AVERROR_EXTERNAL\<close> without writing \<open>*got_packet\<close>, which keeps its 0.
\<close>

theorem C1_gate_passes_no_packet_counterexample:
  "count (output_surface_ready_queue (one_ready_ctx 0)) \<noteq> 0 \<and>
   nvenc_encode_frame 2 True (eos_device ((lock_ok 0)\<lparr>lock_status := NV_ENC_ERR_GENERIC\<rparr>))
      h264_avctx (one_ready_ctx 0) blank_packet None 0
   = Inr (AVERROR_EXTERNAL,
          (one_ready_ctx 0)
            \<lparr>output_surface_ready_queue :=
               \<lparr>data = Some [Some 0, None, None, None], pos = 1, count = 0, size_q = 4\<rparr>,
             timestamp_list := \<lparr>data = Some [0, 0, 0, 0], pos = 1, count = 0, size_q = 4\<rparr>\<rparr>,
          blank_packet, 0)"
  by (simp add: nvenc_encode_frame_def nvenc_before_gate_def nvenc_queue_output_def
        move_to_ready.simps emission_gate_def nvenc_retrieve_def out_surf_queue_dequeue_def
        process_output_surface_def process_output_error_def one_ready_ctx_def empty_queue_def
        eos_device_def
        h264_avctx_def lock_ok_def blank_packet_def timestamp_queue_dequeue_def
        data_queue_dequeue_def Let_def)

lemma sint_nonneg_uint:
  fixes d :: "32 word"
  assumes "0 \<le> sint d"
  shows "sint d = uint d"
proof (cases "uint d < 2 ^ 31")
  case True
  have "(0::int) \<le> uint d" by simp
  moreover have "- (2 ^ 31) \<le> (0::int)" by simp
  ultimately have "- (2 ^ 31) \<le> uint d" by (rule order_trans [rotated])
  then have "signed_take_bit 31 (uint d) = uint d"
    using True by (rule signed_take_bit_int_eq_self)
  then show ?thesis by (simp add: sint_uint)
next
  case False
  then have "2 ^ 31 \<le> uint d" by simp
  then have "signed_take_bit 31 (uint d) \<le> uint d - 2 ^ Suc 31"
    by (rule signed_take_bit_int_less_eq)
  moreover have "uint d < 2 ^ LENGTH(32)" by (rule unsigned_less)
  ultimately have "signed_take_bit 31 (uint d) < 0"
    by (simp del: signed_take_bit_negative_iff)
  then have "sint d < 0" by (simp add: sint_uint)
  with assms show ?thesis by simp
qed

text \<open>
  The comparison of the gate is unsigned on 32 bits.  For a delay that is not negative
  and counts whose sum fits, it is the comparison of the numbers.
\<close>

lemma emission_gate_numeric:
  fixes d a b :: "32 word"
  assumes "0 \<le>s d" and "unat a + unat b < 2 ^ 32"
  shows "d \<le> a + b \<longleftrightarrow> sint d \<le> int (unat a + unat b)"
proof -
  have "unat a + unat b < 2 ^ LENGTH(32)" using assms(2) by simp
  then have s: "unat (a + b) = unat a + unat b" by (simp only: unat_add_lem)
  have "0 \<le> sint d" using assms(1) by (simp add: word_sle_eq)
  then have "sint d = uint d" by (rule sint_nonneg_uint)
  then have e: "sint d = int (unat d)" by simp
  show ?thesis unfolding word_le_nat_alt s e by (rule of_nat_le_iff [symmetric])
qed

lemma nvenc_retrieve_result:
  assumes "nvenc_retrieve api dev avctx ctx pkt g = Inr (ret, ctx', pkt', g')"
  shows "(ret = 0 \<and> g' = 1) \<or> (ret \<noteq> 0 \<and> g' = g)"
  using assms
  by (auto simp: nvenc_retrieve_def Let_def split: sum.splits prod.splits if_splits option.splits)

text \<open>
  Claim C1, amended.  For every call that reaches the emission gate, with the context
  \<open>ctx2\<close> as the submission and the queue bookkeeping of this call have left it: if the
  call returns 0, then \<open>*got_packet\<close> is 1 exactly when the ready queue is non-empty and
  either no frame was passed or the buffering delay is at most the sum of the counts of
  the ready and the in-flight queue, and otherwise it is 0 with context and packet
  untouched.  The call returns an error after the gate only when the gate passed and
  the retrieval of the packet failed; \<open>*got_packet\<close> then keeps its value.  A call that
  does not return (\<open>Inl\<close>) aborted while retrieving, after the gate passed.
\<close>

theorem C1_emission_gate:
  assumes "nvenc_before_gate n dev avctx ctx frame = Next ctx2"
  shows "case nvenc_encode_frame n api dev avctx ctx pkt frame g of
           Inl f \<Rightarrow>
             count (output_surface_ready_queue ctx2) \<noteq> 0 \<and>
             (frame = None \<or>
              buffer_delay ctx2 \<le> count (output_surface_ready_queue ctx2) + count (output_surface_queue ctx2))
         | Inr (ret, ctx', pkt', g') \<Rightarrow>
             (ret = 0 \<longrightarrow>
                (g' = 1 \<longleftrightarrow>
                   count (output_surface_ready_queue ctx2) \<noteq> 0 \<and>
                   (frame = None \<or>
                    buffer_delay ctx2 \<le> count (output_surface_ready_queue ctx2) + count (output_surface_queue ctx2))) \<and>
                (g' \<noteq> 1 \<longrightarrow> g' = 0 \<and> ctx' = ctx2 \<and> pkt' = pkt)) \<and>
             (ret \<noteq> 0 \<longrightarrow>
                g' = g \<and>
                count (output_surface_ready_queue ctx2) \<noteq> 0 \<and>
                (frame = None \<or>
                 buffer_delay ctx2 \<le> count (output_surface_ready_queue ctx2) + count (output_surface_queue ctx2)))"
proof (cases "emission_gate ctx2 (frame \<noteq> None)")
  case True
  then have e: "nvenc_encode_frame n api dev avctx ctx pkt frame g =
                  nvenc_retrieve api dev avctx ctx2 pkt g"
    using assms by (simp add: nvenc_encode_frame_def)
  show ?thesis
    using True nvenc_retrieve_result [of api dev avctx ctx2 pkt g]
    by (auto simp: e emission_gate_def split: sum.splits)
next
  case False
  then have e: "nvenc_encode_frame n api dev avctx ctx pkt frame g = Inr (0, ctx2, pkt, 0)"
    using assms by (simp add: nvenc_encode_frame_def)
  show ?thesis using False by (auto simp: e emission_gate_def)
qed


lemma fresh_submit:
  "nvenc_before_gate 2 (ready_device 0) h264_avctx fresh_ctx (Some frame0) = Next fresh_ctx_submitted"
  by code_simp

lemma fresh_encode:
  "nvenc_encode_frame 2 True (ready_device 0) h264_avctx fresh_ctx blank_packet (Some frame0) 0
   = Inr (0, fresh_ctx_retrieved, \<lparr>pts = 0, dts = 0, key_flag = False\<rparr>, 1)"
  by code_simp

theorem C1_emission_gate_witness:
  "nvenc_before_gate 2 (ready_device 0) h264_avctx fresh_ctx (Some frame0) = Next fresh_ctx_submitted \<and>
   nvenc_encode_frame 2 True (ready_device 0) h264_avctx fresh_ctx blank_packet (Some frame0) 0
     = Inr (0, fresh_ctx_retrieved, \<lparr>pts = 0, dts = 0, key_flag = False\<rparr>, 1) \<and>
   count (output_surface_ready_queue fresh_ctx_submitted) \<noteq> 0 \<and>
   buffer_delay fresh_ctx_submitted \<le>
     count (output_surface_ready_queue fresh_ctx_submitted) + count (output_surface_queue fresh_ctx_submitted)"
  using C1_emission_gate [OF fresh_submit, where api = True and pkt = blank_packet and g = 0] fresh_submit
  by (simp add: fresh_encode)


section \<open>nvenc_encode_init\<close>

text \<open>
  What the driver, the CUDA layer and the allocator answer during \<open>nvenc_encode_init\<close>.
  \<open>dyload_ok\<close> is the answer of the device to \<open>nvenc_dyload_nvenc\<close>: CUDA initialises,
  the GPU has the features the codec needs and the library loads.
  \<open>cu_module_return\<close> stands for the macro \<open>__cu\<close>, of a header outside the sources at
  hand, around the two calls that load the CUDA module: \<open>None\<close> when control falls
  through it, \<open>Some r\<close> when it makes the function return \<open>r\<close>.  \<open>fresh_input\<close> and
  \<open>fresh_output\<close> are the indeterminate contents of the freshly allocated surface
  arrays, \<open>preset_frameIntervalP\<close> the value of that field in the preset configuration
  the driver hands out.
\<close>

record InitDevice =
  dyload_ok :: bool
  cuda_context_ok :: bool
  cu_module_return :: "int option"
  open_session_status :: NVENCSTATUS
  preset_config_status :: NVENCSTATUS
  preset_frameIntervalP :: int32_t
  initialize_status :: NVENCSTATUS
  input_surfaces_alloc :: bool
  output_surfaces_alloc :: bool
  fresh_input :: NvencInputSurface
  fresh_output :: NvencOutputSurface
  register_status :: "nat \<Rightarrow> NVENCSTATUS"
  bitstream_status :: "nat \<Rightarrow> NVENCSTATUS"
  sequence_params_status :: NVENCSTATUS
  extradata_alloc :: bool
  cpb_props_alloc :: bool

text \<open>The calls that acquire and release resources, in the order they are made.\<close>

datatype dev_event =
  LoadNvenc | GetCudaContext | OpenEncodeSession | CuMemAllocTransfer | CuMemAlloc nat |
  RegisterResource nat | CreateBitstreamBuffer nat |
  UnregisterResource nat | CuMemFree nat | DestroyBitstreamBuffer nat | CuMemFreeTransfer |
  DestroyEncoder | ReleaseCudaContext | UnloadNvenc

text \<open>
  \<open>input_string_to_uint32\<close> with the two level tables.  The numbers of the levels are
  constants of the vendor header; the model keeps the names and the return code.
\<close>

definition nvenc_h264_level_pairs :: "string list" where
  "nvenc_h264_level_pairs =
     [''auto'', ''1'', ''1.0'', ''1b'', ''1.0b'', ''1.1'', ''1.2'', ''1.3'', ''2'', ''2.0'',
      ''2.1'', ''2.2'', ''3'', ''3.0'', ''3.1'', ''3.2'', ''4'', ''4.0'', ''4.1'', ''4.2'',
      ''5'', ''5.0'', ''5.1'']"

definition nvenc_hevc_level_pairs :: "string list" where
  "nvenc_hevc_level_pairs =
     [''auto'', ''1'', ''1.0'', ''2'', ''2.0'', ''2.1'', ''3'', ''3.0'', ''3.1'', ''4'', ''4.0'',
      ''4.1'', ''5'', ''5.0'', ''5.1'', ''5.2'', ''6'', ''6.0'', ''6.1'', ''6.2'']"

definition input_string_to_uint32 :: "string list \<Rightarrow> string \<Rightarrow> int" where
  "input_string_to_uint32 pair input = (if input \<in> set pair then 0 else AVERROR_EINVAL)"

text \<open>
  The code at the label \<open>error\<close>: the first \<open>surfaceCount\<close> surfaces are released, then
  the transfer surface, the encoder, the CUDA context and the library.
\<close>

definition nvenc_init_error ::
  "NvencContext \<Rightarrow> dev_event list \<Rightarrow> nat \<Rightarrow> int \<Rightarrow> int \<times> NvencContext \<times> dev_event list" where
  "nvenc_init_error ctx tr surfaceCount res =
     (res,
      ctx\<lparr>nvencoder := False, cu_context := False, nvenc_lib := False\<rparr>,
      tr @
      concat (map (\<lambda>i. [UnregisterResource i, CuMemFree i] @
                       (if output_surface (output_surfaces ctx ! i)
                        then [DestroyBitstreamBuffer i] else []))
                [0..<surfaceCount]) @
      [CuMemFreeTransfer] @
      (if nvencoder ctx then [DestroyEncoder] else []) @
      (if cu_context ctx then [ReleaseCudaContext] else []) @
      [UnloadNvenc])"

text \<open>
  The loop over the surfaces.  \<open>Inl\<close> is a jump to \<open>error\<close> with the return code and
  the value of \<open>surfaceCount\<close> at the jump.
\<close>

fun nvenc_init_surfaces ::
  "InitDevice \<Rightarrow> AVPixelFormat \<Rightarrow> nat list \<Rightarrow> NvencContext \<Rightarrow> dev_event list \<Rightarrow>
   (int \<times> nat \<times> NvencContext \<times> dev_event list) + (NvencContext \<times> dev_event list)" where
  "nvenc_init_surfaces dev fmt [] ctx tr = Inr (ctx, tr)"
| "nvenc_init_surfaces dev fmt (k # ks) ctx tr =
     (if fmt \<noteq> AV_PIX_FMT_YUV420P \<and> fmt \<noteq> AV_PIX_FMT_NV12
      then Inl (AVERROR_EINVAL, k, ctx, tr)
      else
        let ctx1 = ctx\<lparr>input_surfaces := (input_surfaces ctx)
                      [k := (input_surfaces ctx ! k)\<lparr>format := NV_ENC_BUFFER_FORMAT_NV12_PL\<rparr>]\<rparr>;
            tr1 = tr @ [CuMemAlloc k]
        in if register_status dev k \<noteq> NV_ENC_SUCCESS
           then Inl (AVERROR_EXTERNAL, k, ctx1, tr1)
           else
             let ctx2 = ctx1\<lparr>input_surfaces := (input_surfaces ctx1)
                           [k := (input_surfaces ctx1 ! k)\<lparr>lockCount := 0\<rparr>]\<rparr>;
                 tr2 = tr1 @ [RegisterResource k]
             in if bitstream_status dev k \<noteq> NV_ENC_SUCCESS
                then Inl (AVERROR_EXTERNAL, Suc k,
                          ctx2\<lparr>output_surfaces := (output_surfaces ctx2)
                                [k := (output_surfaces ctx2 ! k)\<lparr>output_surface := False\<rparr>]\<rparr>,
                          tr2)
                else nvenc_init_surfaces dev fmt ks
                       (ctx2\<lparr>output_surfaces := (output_surfaces ctx2)
                              [k := (output_surfaces ctx2 ! k)\<lparr>output_surface := True, busy := 0\<rparr>]\<rparr>)
                       (tr2 @ [CreateBitstreamBuffer k]))"


text \<open>
  The preset names: \<open>None\<close> for an unknown name, otherwise the new value of
  \<open>ctx->twopass\<close> and the flag \<open>isLL\<close>.
\<close>

definition nvenc_preset :: "string \<Rightarrow> int \<Rightarrow> (int \<times> int) option" where
  "nvenc_preset name tp =
     (if name = ''slow'' then Some (1, 0)
      else if name = ''medium'' then Some (0, 0)
      else if name = ''fast'' then Some (0, 0)
      else if name = ''hq'' then Some (tp, 0)
      else if name = ''hp'' then Some (tp, 0)
      else if name = ''bd'' then Some (tp, 0)
      else if name = ''ll'' then Some (tp, 1)
      else if name = ''llhp'' then Some (tp, 1)
      else if name = ''llhq'' then Some (tp, 1)
      else if name = ''lossless'' then Some (tp, 0)
      else if name = ''losslesshp'' then Some (tp, 0)
      else if name = ''default'' then Some (tp, 0)
      else None)"

text \<open>
  \<open>nvenc_encode_init\<close>, in five parts.  Each part either ends the function (\<open>Inl\<close>, with
  the return code, the context and the calls made) or passes on.  The model leaves out
  the assignments to the encoder configuration and to \<open>avctx\<close> that no branch of the
  function reads again (aspect ratio, frame rate, rate control, profile and level
  numbers, the copy of the sequence header); of the configuration it keeps
  \<open>frameIntervalP\<close>.

  First: the library, the CUDA context, the encode session, the preset and the codec.
  \<open>nvenc_dyload_nvenc\<close> fails through \<open>nvenc_check_cuda\<close> for a codec other than H.264
  and H.265, whatever the device answers.
\<close>

type_synonym init_result = "int \<times> NvencContext \<times> dev_event list"

definition nvenc_init_open ::
  "InitDevice \<Rightarrow> AVCodecContext \<Rightarrow> NvencContext \<Rightarrow> init_result + (NvencContext \<times> dev_event list)" where
  "nvenc_init_open dev avctx ctx =
     (if \<not> dyload_ok dev \<or>
         (codec_id avctx \<noteq> AV_CODEC_ID_H264 \<and> codec_id avctx \<noteq> AV_CODEC_ID_H265)
      then Inl (AVERROR_EXTERNAL, ctx, [])
      else
        let ctx1 = ctx\<lparr>nvenc_lib := True, last_dts := AV_NOPTS_VALUE\<rparr>;
            tr1 = [LoadNvenc]
        in if \<not> cuda_context_ok dev then Inl (nvenc_init_error ctx1 tr1 0 AVERROR_EXTERNAL)
           else
             let ctx2 = ctx1\<lparr>cu_context := True\<rparr>;
                 tr2 = tr1 @ [GetCudaContext]
             in case cu_module_return dev of
               Some r \<Rightarrow> Inl (r, ctx2, tr2)
             | None \<Rightarrow>
                 if open_session_status dev \<noteq> NV_ENC_SUCCESS
                 then Inl (nvenc_init_error (ctx2\<lparr>nvencoder := False\<rparr>) tr2 0 AVERROR_EXTERNAL)
                 else
                   let ctx3 = ctx2\<lparr>nvencoder := True\<rparr>;
                       tr3 = tr2 @ [OpenEncodeSession];
                       chosen = (case preset ctx3 of
                                   None \<Rightarrow> Some (twopass ctx3, 0)
                                 | Some name \<Rightarrow> nvenc_preset name (twopass ctx3))
                   in case chosen of
                     None \<Rightarrow> Inl (nvenc_init_error ctx3 tr3 0 AVERROR_EINVAL)
                   | Some (tp, isLL) \<Rightarrow>
                       let ctx4 = ctx3\<lparr>twopass := (if tp < 0 then isLL else tp)\<rparr>
                       in if codec_id avctx \<noteq> AV_CODEC_ID_H264 \<and> codec_id avctx \<noteq> AV_CODEC_ID_H265
                          then Inl (nvenc_init_error ctx4 tr3 0 AVERROR_EINVAL)
                          else if preset_config_status dev \<noteq> NV_ENC_SUCCESS
                          then Inl (nvenc_init_error ctx4 tr3 0 AVERROR_EXTERNAL)
                          else Inr (ctx4, tr3))"

text \<open>
  Second: the size of the surface pool, the buffering delay, the GOP pattern and the
  baseline of the decode timestamps.
\<close>

definition nvenc_init_settle :: "InitDevice \<Rightarrow> AVCodecContext \<Rightarrow> NvencContext \<Rightarrow> NvencContext" where
  "nvenc_init_settle dev avctx ctx =
     (let num_mbs = signed_drop_bit 4 (width avctx + 15) * signed_drop_bit 4 (height avctx + 15);
          ctx1 = ctx\<lparr>max_surface_count := (if 8160 \<le>s num_mbs then 32 else 48)\<rparr>;
          ctx2 = (if max_surface_count ctx1 \<le>s buffer_delay ctx1
                  then ctx1\<lparr>buffer_delay := max_surface_count ctx1 - 1\<rparr> else ctx1);
          ctx3 = ctx2\<lparr>frameIntervalP := preset_frameIntervalP dev\<rparr>;
          ctx4 = (if 0 <s gop_size avctx
                  then (if 0 \<le>s max_b_frames avctx
                        then ctx3\<lparr>frameIntervalP := max_b_frames avctx + 1\<rparr> else ctx3)
                  else if gop_size avctx = 0 then ctx3\<lparr>frameIntervalP := 0\<rparr>
                  else ctx3)
      in if 2 \<le>s frameIntervalP ctx4 then ctx4\<lparr>last_dts := - 2\<rparr> else ctx4)"

text \<open>
  Third: the profile, level and tier names.  The second component of \<open>Inr\<close> is the
  value of \<open>res\<close>, which a level lookup has overwritten.
\<close>

definition nvenc_init_names ::
  "AVCodecContext \<Rightarrow> NvencContext \<Rightarrow> dev_event list \<Rightarrow> init_result + (NvencContext \<times> int)" where
  "nvenc_init_names avctx ctx tr =
     (let lookup = (\<lambda>table. case level ctx of
                               None \<Rightarrow> 0
                             | Some l \<Rightarrow> input_string_to_uint32 table l)
      in if codec_id avctx = AV_CODEC_ID_H264 then
           (if profile ctx \<noteq> None \<and>
               profile ctx \<notin> {Some ''high'', Some ''main'', Some ''baseline''}
            then Inl (nvenc_init_error ctx tr 0 AVERROR_EINVAL)
            else if lookup nvenc_h264_level_pairs \<noteq> 0
            then Inl (nvenc_init_error ctx tr 0 (lookup nvenc_h264_level_pairs))
            else Inr (ctx, 0))
         else if codec_id avctx = AV_CODEC_ID_H265 then
           (if lookup nvenc_hevc_level_pairs \<noteq> 0
            then Inl (nvenc_init_error ctx tr 0 (lookup nvenc_hevc_level_pairs))
            else if tier ctx \<noteq> None \<and> tier ctx \<notin> {Some ''main'', Some ''high''}
            then Inl (nvenc_init_error ctx tr 0 AVERROR_EINVAL)
            else Inr (ctx, 0))
         else Inr (ctx, 0))"

text \<open>
  Fourth: the encoder is initialised, the two surface arrays are allocated and filled.
\<close>

definition nvenc_init_resources ::
  "InitDevice \<Rightarrow> AVCodecContext \<Rightarrow> NvencContext \<Rightarrow> dev_event list \<Rightarrow>
   init_result + (NvencContext \<times> dev_event list \<times> nat)" where
  "nvenc_init_resources dev avctx ctx tr =
     (let n = nat (sint (max_surface_count ctx))
      in if initialize_status dev \<noteq> NV_ENC_SUCCESS
         then Inl (nvenc_init_error ctx tr 0 AVERROR_EXTERNAL)
         else if \<not> input_surfaces_alloc dev
         then Inl (nvenc_init_error (ctx\<lparr>input_surfaces := []\<rparr>) tr 0 AVERROR_ENOMEM)
         else
           let ctx1 = ctx\<lparr>input_surfaces := replicate n (fresh_input dev)\<rparr>
           in if \<not> output_surfaces_alloc dev
              then Inl (nvenc_init_error (ctx1\<lparr>output_surfaces := []\<rparr>) tr 0 AVERROR_ENOMEM)
              else
                let ctx2 = ctx1\<lparr>output_surfaces := replicate n (fresh_output dev)\<rparr>;
                    tr2 = (if pix_fmt avctx = AV_PIX_FMT_YUV420P
                           then tr @ [CuMemAllocTransfer] else tr)
                in case nvenc_init_surfaces dev (pix_fmt avctx) [0..<n] ctx2 tr2 of
                  Inl (res, surfaceCount, ctx3, tr3) \<Rightarrow>
                    Inl (nvenc_init_error ctx3 tr3 surfaceCount res)
                | Inr (ctx3, tr3) \<Rightarrow> Inr (ctx3, tr3, n))"

text \<open>
  Last: the sequence header, when global headers are asked for, and the side data.
  \<open>res\<close> is the return code as the earlier parts left it.
\<close>

definition nvenc_init_finish ::
  "InitDevice \<Rightarrow> AVCodecContext \<Rightarrow> NvencContext \<Rightarrow> dev_event list \<Rightarrow> nat \<Rightarrow> int \<Rightarrow> init_result" where
  "nvenc_init_finish dev avctx ctx tr surfaceCount res =
     (if global_header avctx \<and> sequence_params_status dev \<noteq> NV_ENC_SUCCESS
      then nvenc_init_error ctx tr surfaceCount res
      else if global_header avctx \<and> \<not> extradata_alloc dev
      then nvenc_init_error ctx tr surfaceCount AVERROR_ENOMEM
      else if \<not> cpb_props_alloc dev then (AVERROR_ENOMEM, ctx, tr)
      else (0, ctx, tr))"

definition nvenc_encode_init :: "InitDevice \<Rightarrow> AVCodecContext \<Rightarrow> NvencContext \<Rightarrow> init_result" where
  "nvenc_encode_init dev avctx ctx =
     (case nvenc_init_open dev avctx ctx of
        Inl r \<Rightarrow> r
      | Inr (ctx1, tr1) \<Rightarrow>
          (case nvenc_init_names avctx (nvenc_init_settle dev avctx ctx1) tr1 of
             Inl r \<Rightarrow> r
           | Inr (ctx2, res) \<Rightarrow>
               (case nvenc_init_resources dev avctx ctx2 tr1 of
                  Inl r \<Rightarrow> r
                | Inr (ctx3, tr3, surfaceCount) \<Rightarrow>
                    nvenc_init_finish dev avctx ctx3 tr3 surfaceCount res)))"


text \<open>The fields of the context that the second part of the initialisation settles.\<close>

definition settled :: "NvencContext \<Rightarrow> int32_t \<times> int32_t \<times> int32_t \<times> int64_t" where
  "settled ctx = (max_surface_count ctx, buffer_delay ctx, frameIntervalP ctx, last_dts ctx)"

lemma nvenc_init_error_result [simp]:
  "fst (nvenc_init_error ctx tr k res) = res"
  "settled (fst (snd (nvenc_init_error ctx tr k res))) = settled ctx"
  by (simp_all add: nvenc_init_error_def settled_def)

lemma nvenc_init_open_returns:
  assumes "nvenc_init_open dev avctx ctx = Inl r" and "cu_module_return dev = None"
  shows "fst r \<noteq> 0"
  using assms
  by (auto simp: nvenc_init_open_def Let_def split: if_splits option.splits prod.splits)

lemma input_string_to_uint32_cases:
  "input_string_to_uint32 t l = 0 \<or> input_string_to_uint32 t l = AVERROR_EINVAL"
  by (simp add: input_string_to_uint32_def)

lemma nvenc_init_names_result:
  "nvenc_init_names avctx ctx tr = Inl r \<Longrightarrow> fst r \<noteq> 0"
  "nvenc_init_names avctx ctx tr = Inr (ctx', res) \<Longrightarrow> ctx' = ctx \<and> res = 0"
  unfolding nvenc_init_names_def Let_def by (auto split: if_splits)

lemma nvenc_init_surfaces_result:
  "nvenc_init_surfaces dev fmt ks ctx tr = Inl (res, k, ctx', tr') \<Longrightarrow>
     res \<noteq> 0 \<and> settled ctx' = settled ctx"
  "nvenc_init_surfaces dev fmt ks ctx tr = Inr (ctx'', tr'') \<Longrightarrow> settled ctx'' = settled ctx"
proof (induction ks arbitrary: ctx tr)
  case Nil
  { case 1 then show ?case by simp }
  { case 2 then show ?case by simp }
next
  case (Cons a ks)
  { case 1
    then show ?case
      using Cons.IH(1) by (auto simp: Let_def settled_def split: if_splits) }
  { case 2
    then show ?case
      using Cons.IH(2) by (auto simp: Let_def settled_def split: if_splits) }
qed


lemma nvenc_init_resources_result:
  "nvenc_init_resources dev avctx ctx tr = Inl r \<Longrightarrow> fst r \<noteq> 0"
  "nvenc_init_resources dev avctx ctx tr = Inr (ctx', tr', k) \<Longrightarrow> settled ctx' = settled ctx"
proof -
  assume "nvenc_init_resources dev avctx ctx tr = Inl r"
  then show "fst r \<noteq> 0"
    unfolding nvenc_init_resources_def Let_def
    by (auto split: if_splits sum.splits dest: nvenc_init_surfaces_result(1))
next
  assume "nvenc_init_resources dev avctx ctx tr = Inr (ctx', tr', k)"
  then show "settled ctx' = settled ctx"
    unfolding nvenc_init_resources_def Let_def
    by (auto split: if_splits sum.splits dest!: nvenc_init_surfaces_result(2) simp: settled_def)
qed

lemma nvenc_init_finish_settled:
  "settled (fst (snd (nvenc_init_finish dev avctx ctx tr k res))) = settled ctx"
  by (simp add: nvenc_init_finish_def)

lemma nvenc_init_open_last_dts:
  "nvenc_init_open dev avctx ctx = Inr (ctx1, tr1) \<Longrightarrow>
   last_dts ctx1 = AV_NOPTS_VALUE \<and> buffer_delay ctx1 = buffer_delay ctx"
  by (auto simp: nvenc_init_open_def Let_def split: if_splits option.splits prod.splits)

lemma nvenc_encode_init_success:
  assumes "nvenc_encode_init dev avctx ctx = (0, ctx', tr)" and "cu_module_return dev = None"
  shows "\<exists>ctx1 tr1.
           nvenc_init_open dev avctx ctx = Inr (ctx1, tr1) \<and>
           settled ctx' = settled (nvenc_init_settle dev avctx ctx1)"
proof (cases "nvenc_init_open dev avctx ctx")
  case (Inl r)
  with assms nvenc_init_open_returns [OF Inl assms(2)] show ?thesis
    by (simp add: nvenc_encode_init_def)
next
  case (Inr a)
  obtain ctx1 tr1 where a: "a = (ctx1, tr1)" by (cases a)
  let ?c = "nvenc_init_settle dev avctx ctx1"
  show ?thesis
  proof (cases "nvenc_init_names avctx ?c tr1")
    case (Inl r)
    with assms Inr a nvenc_init_names_result(1) [OF Inl] show ?thesis
      by (simp add: nvenc_encode_init_def)
  next
    case cfg: (Inr b)
    obtain ctx2 res where b: "b = (ctx2, res)" by (cases b)
    have c2: "ctx2 = ?c" and res: "res = 0"
      using cfg b nvenc_init_names_result(2) by blast+
    show ?thesis
    proof (cases "nvenc_init_resources dev avctx ctx2 tr1")
      case (Inl r)
      with assms Inr a cfg b nvenc_init_resources_result(1) [OF Inl] show ?thesis
        by (simp add: nvenc_encode_init_def)
    next
      case rs: (Inr c)
      obtain ctx3 tr3 k where c: "c = (ctx3, tr3, k)" by (cases c)
      have "settled ctx3 = settled ctx2"
        using rs c nvenc_init_resources_result(2) by blast
      moreover have "ctx' = fst (snd (nvenc_init_finish dev avctx ctx3 tr3 k res))"
        using assms(1) Inr a cfg b rs c by (simp add: nvenc_encode_init_def)
      ultimately have "settled ctx' = settled ctx2"
        by (simp add: nvenc_init_finish_settled)
      then show ?thesis using Inr a c2 by simp
    qed
  qed
qed


text \<open>
  The context before \<open>nvenc_encode_init\<close>: zeroed, with the defaults of the option table
  (\<open>preset\<close> \<open>hq\<close>, \<open>2pass\<close> \<open>-1\<close>, \<open>delay\<close> \<open>INT_MAX\<close>).
\<close>

definition options_delay_default :: int32_t where
  "options_delay_default = 0x7FFFFFFF"

definition unopened_ctx :: NvencContext where
  "unopened_ctx =
     \<lparr>frameIntervalP = 0, max_surface_count = 0, input_surfaces = [], output_surfaces = [],
      output_surface_queue = empty_queue, output_surface_ready_queue = empty_queue,
      timestamp_list = empty_queue, last_dts = 0,
      nvencoder = False, cu_context = False, nvenc_lib = False,
      preset = Some ''hq'', profile = None, level = None, tier = None, twopass = - 1,
      buffer_delay = options_delay_default\<rparr>"

text \<open>A device on which every step of the initialisation succeeds.\<close>

definition good_init_device :: InitDevice where
  "good_init_device =
     \<lparr>dyload_ok = True, cuda_context_ok = True, cu_module_return = None,
      open_session_status = NV_ENC_SUCCESS, preset_config_status = NV_ENC_SUCCESS,
      preset_frameIntervalP = 1, initialize_status = NV_ENC_SUCCESS,
      input_surfaces_alloc = True, output_surfaces_alloc = True,
      fresh_input = \<lparr>lockCount = 7, format = NV_ENC_BUFFER_FORMAT_UNDEFINED\<rparr>,
      fresh_output = \<lparr>output_surface = False, input_surface = None, busy = 7\<rparr>,
      register_status = (\<lambda>k. NV_ENC_SUCCESS), bitstream_status = (\<lambda>k. NV_ENC_SUCCESS),
      sequence_params_status = NV_ENC_SUCCESS, extradata_alloc = True, cpb_props_alloc = True\<rparr>"

definition opened_ctx :: NvencContext where
  "opened_ctx = unopened_ctx
     \<lparr>frameIntervalP := 2, max_surface_count := 32,
      input_surfaces := replicate 32 \<lparr>lockCount = 0, format = NV_ENC_BUFFER_FORMAT_NV12_PL\<rparr>,
      output_surfaces := replicate 32 \<lparr>output_surface = True, input_surface = None, busy = 0\<rparr>,
      last_dts := - 2, nvencoder := True, cu_context := True, nvenc_lib := True,
      twopass := 0, buffer_delay := 31\<rparr>"

lemma good_init:
  "fst (nvenc_encode_init good_init_device h264_avctx unopened_ctx) = 0 \<and>
   fst (snd (nvenc_encode_init good_init_device h264_avctx unopened_ctx)) = opened_ctx"
  by code_simp

lemma seq_fail_init:
  "fst (nvenc_encode_init (good_init_device\<lparr>sequence_params_status := NV_ENC_ERR_GENERIC\<rparr>)
          (h264_avctx\<lparr>global_header := True\<rparr>) unopened_ctx) = 0 \<and>
   fst (snd (nvenc_encode_init (good_init_device\<lparr>sequence_params_status := NV_ENC_ERR_GENERIC\<rparr>)
          (h264_avctx\<lparr>global_header := True\<rparr>) unopened_ctx))
     = opened_ctx\<lparr>nvencoder := False, cu_context := False, nvenc_lib := False\<rparr> \<and>
   last (snd (snd (nvenc_encode_init (good_init_device\<lparr>sequence_params_status := NV_ENC_ERR_GENERIC\<rparr>)
          (h264_avctx\<lparr>global_header := True\<rparr>) unopened_ctx))) = UnloadNvenc"
  by code_simp


section \<open>Session open (claims C9, C10, C4 and C6)\<close>

lemma sint32_in_range:
  fixes k :: int
  assumes "- (2 ^ 31) \<le> k" and "k < 2 ^ 31"
  shows "signed_take_bit (LENGTH(32) - 1) k = k"
  using assms by (simp add: signed_take_bit_int_eq_self)

lemma sint_plus15:
  fixes w :: "32 word"
  assumes "0 \<le> sint w" and "sint w + 15 < 2 ^ 31"
  shows "sint (w + 15) = sint w + 15"
proof -
  have "sint (w + 15) = signed_take_bit (LENGTH(32) - 1) (sint w + sint (15 :: 32 word))"
    by (rule sint_word_ariths)
  also have "sint (15 :: 32 word) = 15" by simp
  also have "signed_take_bit (LENGTH(32) - 1) (sint w + 15) = sint w + 15"
    using assms by (intro sint32_in_range) simp_all
  finally show ?thesis .
qed

lemma sint_macroblocks:
  fixes w :: "32 word"
  assumes "0 \<le> sint w" and "sint w + 15 < 2 ^ 31"
  shows "sint (signed_drop_bit 4 (w + 15)) = (sint w + 15) div 16"
  using assms by (simp add: sint_signed_drop_bit_eq sint_plus15 drop_bit_eq_div)

lemma sint_num_mbs:
  fixes w h :: "32 word"
  assumes "0 \<le> sint w" and "sint w + 15 < 2 ^ 31"
    and "0 \<le> sint h" and "sint h + 15 < 2 ^ 31"
    and "((sint w + 15) div 16) * ((sint h + 15) div 16) < 2 ^ 31"
  shows "sint (signed_drop_bit 4 (w + 15) * signed_drop_bit 4 (h + 15))
           = ((sint w + 15) div 16) * ((sint h + 15) div 16)"
proof -
  let ?a = "(sint w + 15) div 16" and ?b = "(sint h + 15) div 16"
  have a: "0 \<le> ?a" using assms(1) by simp
  have b: "0 \<le> ?b" using assms(3) by simp
  have nn: "0 \<le> ?a * ?b" using a b by (rule mult_nonneg_nonneg)
  have "(- (2 ^ 31) :: int) \<le> 0" by simp
  then have lo: "- (2 ^ 31) \<le> ?a * ?b" using nn by (rule order_trans)
  have "sint (signed_drop_bit 4 (w + 15) * signed_drop_bit 4 (h + 15)) =
          signed_take_bit (LENGTH(32) - 1)
            (sint (signed_drop_bit 4 (w + 15)) * sint (signed_drop_bit 4 (h + 15)))"
    by (rule sint_word_ariths)
  also have "\<dots> = signed_take_bit (LENGTH(32) - 1) (?a * ?b)"
    using assms(1-4) by (simp only: sint_macroblocks)
  also have "\<dots> = ?a * ?b" using lo assms(5) by (rule sint32_in_range)
  finally show ?thesis .
qed

text \<open>
  Claim C9.  After a session open that returned 0, on frame dimensions that are not
  negative and whose macroblock count does not overflow \<open>int\<close>, the surface pool has 32
  surfaces when the macroblock count, \<open>(width + 15) div 16\<close> times \<open>(height + 15) div 16\<close>,
  is at least 8160, and 48 otherwise.
\<close>

theorem C9_surface_pool_capacity:
  assumes "nvenc_encode_init dev avctx ctx = (0, ctx', tr)" and "cu_module_return dev = None"
    and "0 \<le> sint (width avctx)" and "sint (width avctx) + 15 < 2 ^ 31"
    and "0 \<le> sint (height avctx)" and "sint (height avctx) + 15 < 2 ^ 31"
    and "((sint (width avctx) + 15) div 16) * ((sint (height avctx) + 15) div 16) < 2 ^ 31"
  shows "max_surface_count ctx' =
           (if 8160 \<le> ((sint (width avctx) + 15) div 16) * ((sint (height avctx) + 15) div 16)
            then 32 else 48)"
proof -
  from nvenc_encode_init_success [OF assms(1,2)] obtain ctx1 tr1 where
    "settled ctx' = settled (nvenc_init_settle dev avctx ctx1)" by blast
  then have "max_surface_count ctx' = max_surface_count (nvenc_init_settle dev avctx ctx1)"
    by (simp add: settled_def)
  also have "\<dots> = (if 8160 \<le>s signed_drop_bit 4 (width avctx + 15) * signed_drop_bit 4 (height avctx + 15)
                    then 32 else 48)"
    by (simp add: nvenc_init_settle_def Let_def)
  also have "\<dots> = (if 8160 \<le> ((sint (width avctx) + 15) div 16) * ((sint (height avctx) + 15) div 16)
            then 32 else 48)"
    using sint_num_mbs [OF assms(3-7)] by (simp add: word_sle_eq)
  finally show ?thesis .
qed

theorem C9_surface_pool_capacity_witness:
  "nvenc_encode_init good_init_device h264_avctx unopened_ctx
     = (0, opened_ctx, snd (snd (nvenc_encode_init good_init_device h264_avctx unopened_ctx))) \<and>
   ((sint (width h264_avctx) + 15) div 16) * ((sint (height h264_avctx) + 15) div 16) = 8160 \<and>
   max_surface_count opened_ctx = 32"
proof -
  have e: "nvenc_encode_init good_init_device h264_avctx unopened_ctx
     = (0, opened_ctx, snd (snd (nvenc_encode_init good_init_device h264_avctx unopened_ctx)))"
    using good_init by (metis prod.collapse)
  have m: "cu_module_return good_init_device = None" by (simp add: good_init_device_def)
  have w: "sint (width h264_avctx) = 1920" and h: "sint (height h264_avctx) = 1080"
    by (simp_all add: h264_avctx_def)
  show ?thesis
    using C9_surface_pool_capacity [OF e m] e by (simp add: w h)
qed


lemma settle_buffer_delay:
  "buffer_delay (nvenc_init_settle dev avctx ctx) <s max_surface_count (nvenc_init_settle dev avctx ctx)"
  "buffer_delay (nvenc_init_settle dev avctx ctx) =
     (if max_surface_count (nvenc_init_settle dev avctx ctx) \<le>s buffer_delay ctx
      then max_surface_count (nvenc_init_settle dev avctx ctx) - 1 else buffer_delay ctx)"
  "max_surface_count (nvenc_init_settle dev avctx ctx) \<le>s options_delay_default"
  by (auto simp: nvenc_init_settle_def Let_def options_delay_default_def word_sless_alt word_sle_eq)

lemma settle_last_dts:
  "last_dts (nvenc_init_settle dev avctx ctx) =
     (if 2 \<le>s frameIntervalP (nvenc_init_settle dev avctx ctx) then - 2 else last_dts ctx)"
  by (simp add: nvenc_init_settle_def Let_def)

text \<open>
  Claim C10.  After a session open that returned 0 the buffering delay is below the
  size of the surface pool: a delay option at or above \<open>max_surface_count\<close>, such as the
  default \<open>INT_MAX\<close>, has become \<open>max_surface_count - 1\<close>, and a smaller one is kept.
\<close>

theorem C10_buffer_delay_below_capacity:
  assumes "nvenc_encode_init dev avctx ctx = (0, ctx', tr)" and "cu_module_return dev = None"
  shows "buffer_delay ctx' <s max_surface_count ctx' \<and>
         buffer_delay ctx' =
           (if max_surface_count ctx' \<le>s buffer_delay ctx
            then max_surface_count ctx' - 1 else buffer_delay ctx) \<and>
         (buffer_delay ctx = options_delay_default \<longrightarrow>
            buffer_delay ctx' = max_surface_count ctx' - 1)"
proof -
  from nvenc_encode_init_success [OF assms] obtain ctx1 tr1 where
    o: "nvenc_init_open dev avctx ctx = Inr (ctx1, tr1)" and
    s: "settled ctx' = settled (nvenc_init_settle dev avctx ctx1)" by blast
  have b: "buffer_delay ctx1 = buffer_delay ctx" using o nvenc_init_open_last_dts by blast
  have m: "max_surface_count ctx' = max_surface_count (nvenc_init_settle dev avctx ctx1)"
    and d: "buffer_delay ctx' = buffer_delay (nvenc_init_settle dev avctx ctx1)"
    using s by (simp_all add: settled_def)
  show ?thesis
    unfolding m d using settle_buffer_delay [of dev avctx ctx1] by (simp add: b)
qed

theorem C10_buffer_delay_below_capacity_witness:
  "nvenc_encode_init good_init_device h264_avctx unopened_ctx
     = (0, opened_ctx, snd (snd (nvenc_encode_init good_init_device h264_avctx unopened_ctx))) \<and>
   buffer_delay unopened_ctx = options_delay_default \<and>
   buffer_delay opened_ctx = 31 \<and> max_surface_count opened_ctx = 32"
proof -
  have e: "nvenc_encode_init good_init_device h264_avctx unopened_ctx
     = (0, opened_ctx, snd (snd (nvenc_encode_init good_init_device h264_avctx unopened_ctx)))"
    using good_init by (metis prod.collapse)
  have m: "cu_module_return good_init_device = None" by (simp add: good_init_device_def)
  show ?thesis
    using C10_buffer_delay_below_capacity [OF e m] e
    by (simp add: opened_ctx_def unopened_ctx_def)
qed

lemma timestamp_dequeue_oldest:
  assumes "queue_inv q" and "queue_contents q = t # ts"
  shows "\<exists>q'. timestamp_queue_dequeue q = Inr (t, q') \<and> queue_contents q' = ts"
proof -
  have "length (queue_contents q) = unat (count q)" using assms(1) by (rule queue_contents_length)
  then have "count q \<noteq> 0" using assms(2) by auto
  from dequeue_nonempty [OF assms(1) this] assms(2) show ?thesis
    by (auto simp: timestamp_queue_dequeue_def)
qed

text \<open>
  Claim C4.  A call of \<open>process_output_surface\<close> that produces a packet pops the oldest
  presentation timestamp \<open>t\<close> of the timestamp queue and computes the decode timestamp
  from \<open>t\<close>, or from \<open>t - 1\<close> when \<open>frameIntervalP\<close> is at least 2, by the clamp to the
  presentation timestamp and the step above \<open>last_dts\<close>.  A session open that returned 0
  has set \<open>last_dts\<close> to \<open>-2\<close> when \<open>frameIntervalP\<close> is at least 2 and to
  \<open>AV_NOPTS_VALUE\<close> otherwise.
\<close>

theorem C4_decode_timestamp_offset:
  "(process_output_surface api avctx lk ctx pkt s = Inr (0, ctx', pkt') \<and>
    queue_inv (timestamp_list ctx) \<and> queue_contents (timestamp_list ctx) = t # ts \<longrightarrow>
      queue_contents (timestamp_list ctx') = ts \<and>
      dts pkt' =
        (let d0 = (if 2 \<le>s frameIntervalP ctx then t - 1 else t);
             d1 = (if outputTimeStamp lk <s d0 then outputTimeStamp lk else d0)
         in if last_dts ctx \<noteq> AV_NOPTS_VALUE \<and> d1 \<le>s last_dts ctx
            then last_dts ctx + 1 else d1)) \<and>
   (nvenc_encode_init dev avctx0 ctx0 = (0, ctx1, tr) \<and> cu_module_return dev = None \<longrightarrow>
      last_dts ctx1 = (if 2 \<le>s frameIntervalP ctx1 then - 2 else AV_NOPTS_VALUE))"
proof (intro conjI impI)
  assume a: "process_output_surface api avctx lk ctx pkt s = Inr (0, ctx', pkt') \<and>
    queue_inv (timestamp_list ctx) \<and> queue_contents (timestamp_list ctx) = t # ts"
  then obtain q' where q: "timestamp_queue_dequeue (timestamp_list ctx) = Inr (t, q')"
    and c: "queue_contents q' = ts"
    using timestamp_dequeue_oldest by blast
  from a process_output_surface_success [of api avctx lk ctx pkt s ctx' pkt'] q
  have c': "ctx' = ctx\<lparr>timestamp_list := q', last_dts := dts pkt'\<rparr>" and
    d: "dts pkt' =
        (let d0 = (if 2 \<le>s frameIntervalP ctx then t - 1 else t);
             d1 = (if outputTimeStamp lk <s d0 then outputTimeStamp lk else d0)
         in if last_dts ctx \<noteq> AV_NOPTS_VALUE \<and> d1 \<le>s last_dts ctx
            then last_dts ctx + 1 else d1)"
    by auto
  show "queue_contents (timestamp_list ctx') = ts" using c c' by simp
  show "dts pkt' =
        (let d0 = (if 2 \<le>s frameIntervalP ctx then t - 1 else t);
             d1 = (if outputTimeStamp lk <s d0 then outputTimeStamp lk else d0)
         in if last_dts ctx \<noteq> AV_NOPTS_VALUE \<and> d1 \<le>s last_dts ctx
            then last_dts ctx + 1 else d1)"
    by (rule d)
next
  assume a: "nvenc_encode_init dev avctx0 ctx0 = (0, ctx1, tr) \<and> cu_module_return dev = None"
  then obtain c tr1 where
    o: "nvenc_init_open dev avctx0 ctx0 = Inr (c, tr1)" and
    s: "settled ctx1 = settled (nvenc_init_settle dev avctx0 c)"
    using nvenc_encode_init_success by blast
  have "last_dts c = AV_NOPTS_VALUE" using o nvenc_init_open_last_dts by blast
  then show "last_dts ctx1 = (if 2 \<le>s frameIntervalP ctx1 then - 2 else AV_NOPTS_VALUE)"
    using s settle_last_dts [of dev avctx0 c] by (simp add: settled_def)
qed


lemma three_ts_queue:
  "queue_inv (timestamp_list three_ts_ctx)"
  "queue_contents (timestamp_list three_ts_ctx) = [0, 1, 2]"
  by code_simp+

lemma three_ts_first:
  "process_output_surface True h264_avctx (lock_ok 0) three_ts_ctx blank_packet (Some 0)
     = Inr (0, three_ts_ctx\<lparr>timestamp_list := \<lparr>data = Some [0, 1, 2, 0], pos = 3, count = 2, size_q = 4\<rparr>,
                            last_dts := - 1\<rparr>,
            \<lparr>pts = 0, dts = - 1, key_flag = False\<rparr>)"
  by code_simp

theorem C4_decode_timestamp_offset_witness:
  "process_output_surface True h264_avctx (lock_ok 0) three_ts_ctx blank_packet (Some 0)
     = Inr (0, three_ts_ctx\<lparr>timestamp_list := \<lparr>data = Some [0, 1, 2, 0], pos = 3, count = 2, size_q = 4\<rparr>,
                            last_dts := - 1\<rparr>,
            \<lparr>pts = 0, dts = - 1, key_flag = False\<rparr>) \<and>
   queue_contents (timestamp_list three_ts_ctx) = [0, 1, 2] \<and>
   queue_contents \<lparr>data = Some [0, 1, 2, 0 :: int64_t], pos = 3, count = 2, size_q = 4\<rparr> = [1, 2] \<and>
   nvenc_encode_init good_init_device h264_avctx unopened_ctx
     = (0, opened_ctx, snd (snd (nvenc_encode_init good_init_device h264_avctx unopened_ctx))) \<and>
   last_dts opened_ctx = - 2"
proof -
  have e: "nvenc_encode_init good_init_device h264_avctx unopened_ctx
     = (0, opened_ctx, snd (snd (nvenc_encode_init good_init_device h264_avctx unopened_ctx)))"
    using good_init by (metis prod.collapse)
  have m: "cu_module_return good_init_device = None" by (simp add: good_init_device_def)
  have f: "2 \<le>s frameIntervalP opened_ctx" by (simp add: opened_ctx_def unopened_ctx_def)
  note c4 = C4_decode_timestamp_offset
    [where api = True and avctx = h264_avctx and lk = "lock_ok 0" and ctx = three_ts_ctx
       and pkt = blank_packet and s = "Some 0" and t = 0 and ts = "[1, 2]"
       and pkt' = "\<lparr>pts = 0, dts = - 1, key_flag = False\<rparr>"
       and ctx' = "three_ts_ctx\<lparr>timestamp_list :=
                     \<lparr>data = Some [0, 1, 2, 0], pos = 3, count = 2, size_q = 4\<rparr>, last_dts := - 1\<rparr>"
       and dev = good_init_device and ?avctx0.0 = h264_avctx and ?ctx0.0 = unopened_ctx
       and ?ctx1.0 = opened_ctx
       and tr = "snd (snd (nvenc_encode_init good_init_device h264_avctx unopened_ctx))"]
  show ?thesis
    using c4 three_ts_first three_ts_queue e m f by simp
qed


text \<open>
  When the session open returns 0, every step before the sequence header has succeeded;
  the sequence header is the one step whose failure leaves the return code at 0.
\<close>

lemma nvenc_init_open_passes:
  "nvenc_init_open dev avctx ctx = Inr r \<Longrightarrow>
   dyload_ok dev \<and> cuda_context_ok dev \<and> open_session_status dev = NV_ENC_SUCCESS \<and>
   preset_config_status dev = NV_ENC_SUCCESS"
  by (auto simp: nvenc_init_open_def Let_def split: if_splits option.splits prod.splits)

lemma nvenc_init_surfaces_passes:
  "nvenc_init_surfaces dev fmt ks ctx tr = Inr r \<Longrightarrow>
   \<forall>k \<in> set ks. register_status dev k = NV_ENC_SUCCESS \<and> bitstream_status dev k = NV_ENC_SUCCESS"
  by (induction ks arbitrary: ctx tr) (auto simp: Let_def split: if_splits)

lemma nvenc_init_resources_passes:
  assumes "nvenc_init_resources dev avctx ctx tr = Inr r"
  shows "initialize_status dev = NV_ENC_SUCCESS \<and> input_surfaces_alloc dev \<and>
         output_surfaces_alloc dev \<and>
         (\<forall>k < nat (sint (max_surface_count ctx)).
            register_status dev k = NV_ENC_SUCCESS \<and> bitstream_status dev k = NV_ENC_SUCCESS)"
  using assms unfolding nvenc_init_resources_def Let_def
  by (auto split: if_splits sum.splits dest!: nvenc_init_surfaces_passes)

lemma nvenc_init_finish_zero:
  assumes "fst (nvenc_init_finish dev avctx ctx tr k 0) = 0"
  shows "(global_header avctx \<and> sequence_params_status dev \<noteq> NV_ENC_SUCCESS) \<or>
         ((global_header avctx \<longrightarrow> extradata_alloc dev) \<and> cpb_props_alloc dev)"
  using assms by (auto simp: nvenc_init_finish_def split: if_splits)

lemma nvenc_encode_init_zero_only:
  assumes "nvenc_encode_init dev avctx ctx = (0, ctx', tr)" and "cu_module_return dev = None"
  shows "dyload_ok dev \<and> cuda_context_ok dev \<and> open_session_status dev = NV_ENC_SUCCESS \<and>
         preset_config_status dev = NV_ENC_SUCCESS \<and>
         initialize_status dev = NV_ENC_SUCCESS \<and> input_surfaces_alloc dev \<and>
         output_surfaces_alloc dev \<and>
         (\<forall>k < nat (sint (max_surface_count ctx')).
            register_status dev k = NV_ENC_SUCCESS \<and> bitstream_status dev k = NV_ENC_SUCCESS) \<and>
         ((global_header avctx \<and> sequence_params_status dev \<noteq> NV_ENC_SUCCESS) \<or>
          ((global_header avctx \<longrightarrow> extradata_alloc dev) \<and> cpb_props_alloc dev))"
proof (cases "nvenc_init_open dev avctx ctx")
  case (Inl r)
  with assms nvenc_init_open_returns [OF Inl assms(2)] show ?thesis
    by (simp add: nvenc_encode_init_def)
next
  case (Inr a)
  obtain ctx1 tr1 where a: "a = (ctx1, tr1)" by (cases a)
  let ?c = "nvenc_init_settle dev avctx ctx1"
  note op = nvenc_init_open_passes [OF Inr]
  show ?thesis
  proof (cases "nvenc_init_names avctx ?c tr1")
    case (Inl r)
    with assms Inr a nvenc_init_names_result(1) [OF Inl] show ?thesis
      by (simp add: nvenc_encode_init_def)
  next
    case cfg: (Inr b)
    obtain ctx2 res where b: "b = (ctx2, res)" by (cases b)
    have c2: "ctx2 = ?c" and res: "res = 0"
      using cfg b nvenc_init_names_result(2) by blast+
    show ?thesis
    proof (cases "nvenc_init_resources dev avctx ctx2 tr1")
      case (Inl r)
      with assms Inr a cfg b nvenc_init_resources_result(1) [OF Inl] show ?thesis
        by (simp add: nvenc_encode_init_def)
    next
      case rs: (Inr c)
      obtain ctx3 tr3 k where c: "c = (ctx3, tr3, k)" by (cases c)
      note rp = nvenc_init_resources_passes [OF rs]
      have s3: "settled ctx3 = settled ctx2"
        using rs c nvenc_init_resources_result(2) by blast
      have fin: "nvenc_init_finish dev avctx ctx3 tr3 k 0 = (0, ctx', tr)"
        using assms(1) Inr a cfg b rs c res by (simp add: nvenc_encode_init_def)
      then have "settled ctx' = settled ctx3"
        using nvenc_init_finish_settled [of dev avctx ctx3 tr3 k 0] by simp
      then have m: "max_surface_count ctx' = max_surface_count ctx2"
        using s3 by (simp add: settled_def)
      have "fst (nvenc_init_finish dev avctx ctx3 tr3 k 0) = 0" using fin by simp
      from nvenc_init_finish_zero [OF this] op rp show ?thesis by (simp add: m)
    qed
  qed
qed

text \<open>
  Claim C6 against the code: with global headers asked for and \<open>nvEncGetSequenceParams\<close>
  failing after every earlier step succeeded, \<open>nvenc_encode_init\<close> jumps to \<open>error\<close>
  without setting \<open>res\<close>, releases everything, and returns 0.
\<close>

theorem C6_sequence_header_failure_returns_success:
  "sequence_params_status (good_init_device\<lparr>sequence_params_status := NV_ENC_ERR_GENERIC\<rparr>)
     \<noteq> NV_ENC_SUCCESS \<and>
   fst (nvenc_encode_init (good_init_device\<lparr>sequence_params_status := NV_ENC_ERR_GENERIC\<rparr>)
          (h264_avctx\<lparr>global_header := True\<rparr>) unopened_ctx) = 0 \<and>
   fst (snd (nvenc_encode_init (good_init_device\<lparr>sequence_params_status := NV_ENC_ERR_GENERIC\<rparr>)
          (h264_avctx\<lparr>global_header := True\<rparr>) unopened_ctx))
     = opened_ctx\<lparr>nvencoder := False, cu_context := False, nvenc_lib := False\<rparr> \<and>
   last (snd (snd (nvenc_encode_init (good_init_device\<lparr>sequence_params_status := NV_ENC_ERR_GENERIC\<rparr>)
          (h264_avctx\<lparr>global_header := True\<rparr>) unopened_ctx))) = UnloadNvenc"
  using seq_fail_init by (simp add: good_init_device_def)


section \<open>Draining at end of stream (claim C5)\<close>

text \<open>
  The surfaces that wait in the two queues, in-flight first, and the input surface that
  a queued pointer leads to.
\<close>

definition queued :: "NvencContext \<Rightarrow> surface_ptr list" where
  "queued ctx =
     queue_contents (output_surface_queue ctx) @ queue_contents (output_surface_ready_queue ctx)"

definition input_of :: "NvencContext \<Rightarrow> surface_ptr \<Rightarrow> nat option" where
  "input_of ctx s = (case s of None \<Rightarrow> None | Some i \<Rightarrow> input_surface (output_surfaces ctx ! i))"

definition surface_ok :: "NvencContext \<Rightarrow> surface_ptr \<Rightarrow> bool" where
  "surface_ok ctx s =
     (case s of
        None \<Rightarrow> False
      | Some i \<Rightarrow>
          i < length (output_surfaces ctx) \<and>
          (case input_surface (output_surfaces ctx ! i) of
             None \<Rightarrow> False
           | Some j \<Rightarrow> j < length (input_surfaces ctx) \<and> lockCount (input_surfaces ctx ! j) \<noteq> 0))"

text \<open>The two codecs that the switches of the file have a case for.\<close>

definition known_codec :: "AVCodecContext \<Rightarrow> bool" where
  "known_codec avctx =
     (codec_id avctx = AV_CODEC_ID_H264 \<or> codec_id avctx = AV_CODEC_ID_H265)"

text \<open>
  What holds of the context between calls, as far as draining needs it: the three
  queues have their shape, every queued pointer leads to an output surface of the pool
  whose input surface is locked, no two of them share an input surface, and a
  timestamp queue has been allocated once something is queued.
\<close>

definition flush_inv :: "NvencContext \<Rightarrow> bool" where
  "flush_inv ctx =
     (queue_inv (output_surface_queue ctx) \<and> queue_inv (output_surface_ready_queue ctx) \<and>
      queue_inv (timestamp_list ctx) \<and>
      length (queued ctx) < 2 ^ 31 \<and>
      (queued ctx = [] \<or> size_q (timestamp_list ctx) \<noteq> 0) \<and>
      list_all (surface_ok ctx) (queued ctx) \<and>
      distinct (map (input_of ctx) (queued ctx)))"

text \<open>
  The caller's loop at the end of the stream: one call of \<open>nvenc_encode_frame\<close> with a
  null frame per device answer, each with the packet \<open>pkt\<close> and with \<open>*got_packet\<close> as
  the call before left it.  The result lists what each call returned.
\<close>

fun flush_run ::
  "nat \<Rightarrow> bool \<Rightarrow> EncodeDevice list \<Rightarrow> AVCodecContext \<Rightarrow> NvencContext \<Rightarrow> AVPacket \<Rightarrow> int \<Rightarrow>
   fault + (int \<times> NvencContext \<times> AVPacket \<times> int) list" where
  "flush_run n api [] avctx ctx pkt g = Inr []"
| "flush_run n api (dev # devs) avctx ctx pkt g =
     (case nvenc_encode_frame n api dev avctx ctx pkt None g of
        Inl f \<Rightarrow> Inl f
      | Inr (ret, ctx', pkt', g') \<Rightarrow>
          (case flush_run n api devs avctx ctx' pkt g' of
             Inl f \<Rightarrow> Inl f
           | Inr rs \<Rightarrow> Inr ((ret, ctx', pkt', g') # rs)))"

text \<open>A call that reported no packet and left both queues empty.\<close>

definition drained :: "int \<times> NvencContext \<times> AVPacket \<times> int \<Rightarrow> bool" where
  "drained r =
     (case r of (ret, c, p, g') \<Rightarrow>
        ret = 0 \<and> g' = 0 \<and>
        count (output_surface_queue c) = 0 \<and> count (output_surface_ready_queue c) = 0)"

text \<open>
  Example inputs: a device that asks for more input, a second frame, and the context
  after two frames were submitted to such a device.
\<close>

definition need_more_device :: EncodeDevice where
  "need_more_device = (ready_device 0)\<lparr>encode_status := NV_ENC_ERR_NEED_MORE_INPUT\<rparr>"

definition frame1 :: AVFrame where
  "frame1 = \<lparr>frame_pts = 1, frame_format = AV_PIX_FMT_NV12\<rparr>"

definition two_in_flight_ctx :: NvencContext where
  "two_in_flight_ctx = fresh_ctx
     \<lparr>input_surfaces := (input_surfaces fresh_ctx)
        [0 := \<lparr>lockCount = 1, format = NV_ENC_BUFFER_FORMAT_NV12_PL\<rparr>,
         1 := \<lparr>lockCount = 1, format = NV_ENC_BUFFER_FORMAT_NV12_PL\<rparr>],
      output_surfaces := (output_surfaces fresh_ctx)
        [0 := \<lparr>output_surface = True, input_surface = Some 0, busy = 1\<rparr>,
         1 := \<lparr>output_surface = True, input_surface = Some 1, busy = 1\<rparr>],
      output_surface_queue :=
        \<lparr>data = Some [Some 0, Some 1, None, None], pos = 2, count = 2, size_q = 4\<rparr>,
      timestamp_list := \<lparr>data = Some [0, 1, 0, 0], pos = 2, count = 2, size_q = 4\<rparr>\<rparr>"

text \<open>
  The stream before its end: a run of calls of \<open>nvenc_encode_frame\<close> with a frame, each
  with its own device answers, packet and value of \<open>*got_packet\<close> on entry.  A call
  that returns an error code does not end the run; a call that aborts does.
\<close>

fun encode_run ::
  "nat \<Rightarrow> bool \<Rightarrow> (EncodeDevice \<times> AVFrame \<times> AVPacket \<times> int) list \<Rightarrow> AVCodecContext \<Rightarrow>
   NvencContext \<Rightarrow> fault + NvencContext" where
  "encode_run n api [] avctx ctx = Inr ctx"
| "encode_run n api ((dev, fr, pkt, g) # calls) avctx ctx =
     (case nvenc_encode_frame n api dev avctx ctx pkt (Some fr) g of
        Inl f \<Rightarrow> Inl f
      | Inr (ret, ctx', pkt', g') \<Rightarrow> encode_run n api calls avctx ctx')"

text \<open>
  The context when the session has been opened and no frame was passed yet: the three
  queues are zero-initialised and the surface pool has fewer than \<open>2 ^ 31\<close> entries
  (\<open>max_surface_count\<close> is an \<open>int\<close>).
\<close>

definition queues_unused :: "NvencContext \<Rightarrow> bool" where
  "queues_unused ctx =
     (output_surface_queue ctx = empty_queue \<and> output_surface_ready_queue ctx = empty_queue \<and>
      timestamp_list ctx = empty_queue \<and> length (input_surfaces ctx) < 2 ^ 31)"

text \<open>
  What the calls with a frame keep in addition to \<open>flush_inv\<close>: the queued output
  surfaces are marked busy, and the timestamp queue holds at most as many entries as
  there are locked input surfaces (\<open>locked\<close>), so that it never outgrows the pool.
\<close>

definition locked :: "NvencInputSurface list \<Rightarrow> nat" where
  "locked xs = length (filter (\<lambda>s. lockCount s \<noteq> 0) xs)"

definition in_use :: "NvencContext \<Rightarrow> surface_ptr \<Rightarrow> bool" where
  "in_use ctx s = (case s of None \<Rightarrow> False | Some i \<Rightarrow> busy (output_surfaces ctx ! i) \<noteq> 0)"

definition ctx_inv :: "NvencContext \<Rightarrow> bool" where
  "ctx_inv ctx =
     (flush_inv ctx \<and> list_all (in_use ctx) (queued ctx) \<and>
      unat (count (timestamp_list ctx)) \<le> locked (input_surfaces ctx) \<and>
      length (input_surfaces ctx) < 2 ^ 31)"

text \<open>
  The output surface \<open>i\<close> that a call has just taken for its frame: it leads to a locked
  input surface that no queued surface shares, and a timestamp has been pushed.
\<close>

definition fresh_sub :: "NvencContext \<Rightarrow> nat \<Rightarrow> bool" where
  "fresh_sub c i =
     (surface_ok c (Some i) \<and> input_of c (Some i) \<notin> set (map (input_of c) (queued c)) \<and>
      size_q (timestamp_list c) \<noteq> 0)"

text \<open>What the parts of a call with a frame leave behind, whichever way they end.\<close>

definition submit_inv :: "(NvencContext \<times> nat) flow \<Rightarrow> bool" where
  "submit_inv r =
     (case r of Abort f \<Rightarrow> True | Return res c \<Rightarrow> ctx_inv c
      | Next (c, i) \<Rightarrow> ctx_inv c \<and> fresh_sub c i)"

definition flow_inv :: "NvencContext flow \<Rightarrow> bool" where
  "flow_inv r = (case r of Abort f \<Rightarrow> True | Return res c \<Rightarrow> ctx_inv c | Next c \<Rightarrow> ctx_inv c)"

lemma queue_contents_empty: "count q = 0 \<Longrightarrow> queue_contents q = []"
  by (simp add: queue_contents_def split: option.splits)

lemma out_surf_dequeue_nonempty:
  assumes "queue_inv q" and "count q \<noteq> 0"
  shows "\<exists>x. out_surf_queue_dequeue q = Inr (x, q\<lparr>count := count q - 1\<rparr>) \<and>
             queue_contents q = x # queue_contents (q\<lparr>count := count q - 1\<rparr>) \<and>
             queue_inv (q\<lparr>count := count q - 1\<rparr>)"
  using dequeue_nonempty [OF assms] by (auto simp: out_surf_queue_dequeue_def)

lemma move_to_ready_spec:
  assumes "queue_inv q" and "queue_inv r" and "unat (count q) + unat (count r) < 2 ^ 31"
  shows "\<exists>res q' r' h'. move_to_ready (Suc (Suc n)) h q r = Inr (res, q', r', h') \<and>
           queue_inv q' \<and> queue_inv r' \<and>
           (count q = 0 \<longrightarrow> res = 0 \<and> q' = q \<and> r' = r) \<and>
           (\<exists>moved rest. queue_contents q = moved @ rest \<and>
              queue_contents r' = queue_contents r @ moved \<and>
              (if res = 0 then rest = [] \<and> queue_contents q' = []
               else rest \<noteq> [] \<and> queue_contents q' = tl rest))"
  using assms
proof (induction "unat (count q)" arbitrary: q r h)
  case 0
  then have c0: "count q = 0" by (simp add: unat_eq_0)
  then have "move_to_ready (Suc (Suc n)) h q r = Inr (0, q, r, h)"
    by (simp add: move_to_ready.simps)
  moreover have "queue_contents q = []" using c0 by (rule queue_contents_empty)
  ultimately show ?case using 0 c0 by simp
next
  case (Suc m)
  let ?q1 = "q\<lparr>count := count q - 1\<rparr>"
  from Suc.hyps(2) have ne: "count q \<noteq> 0" by (metis Zero_not_Suc unat_0)
  from out_surf_dequeue_nonempty [OF Suc.prems(1) ne] obtain x where
    deq: "out_surf_queue_dequeue q = Inr (x, ?q1)" and
    cont: "queue_contents q = x # queue_contents ?q1" and inv1: "queue_inv ?q1"
    by blast
  have c1: "unat (count ?q1) = m" using Suc.hyps(2) ne by (simp add: unat_minus_one)
  show ?case
  proof (cases "needs_alloc r \<and> heap_fails h")
    case True
    then have e: "out_surf_queue_enqueue (Suc (Suc n)) h r x = Inr (AVERROR_ENOMEM, r, tl h)"
      using Suc.prems(2) by (simp add: out_surf_queue_enqueue_def enqueue_alloc_fails)
    have "move_to_ready (Suc (Suc n)) h q r = Inr (AVERROR_ENOMEM, ?q1, r, tl h)"
      using ne by (subst move_to_ready.simps) (simp add: deq e)
    moreover have "queue_contents q = [] @ (x # queue_contents ?q1) \<and>
        queue_contents r = queue_contents r @ [] \<and> x # queue_contents ?q1 \<noteq> [] \<and>
        queue_contents ?q1 = tl (x # queue_contents ?q1)"
      using cont by simp
    ultimately show ?thesis using inv1 Suc.prems(2) ne by (auto simp: enomem_nonzero)
  next
    case False
    have b: "unat (count r) < 2 ^ 31" using Suc.prems(3) by simp
    from False have "needs_alloc r \<longrightarrow> \<not> heap_fails h" by simp
    from enqueue_succeeds [OF Suc.prems(2) b this, of n x] obtain r2 where
      e: "out_surf_queue_enqueue (Suc (Suc n)) h r x = Inr (0, r2, if needs_alloc r then tl h else h)"
      and c: "queue_contents r2 = queue_contents r @ [x]" and i2: "queue_inv r2"
      by (auto simp: out_surf_queue_enqueue_def)
    let ?h2 = "if needs_alloc r then tl h else h"
    have "length (queue_contents r2) = Suc (length (queue_contents r))" using c by simp
    then have cr2: "unat (count r2) = Suc (unat (count r))"
      using i2 Suc.prems(2) by (simp add: queue_contents_length)
    have room: "unat (count ?q1) + unat (count r2) < 2 ^ 31"
      using c1 cr2 Suc.hyps(2) Suc.prems(3) by simp
    have m1: "m = unat (count ?q1)" using c1 by simp
    from Suc.hyps(1) [OF m1 inv1 i2 room, of ?h2] obtain res q' r' h' moved rest where
      mv: "move_to_ready (Suc (Suc n)) ?h2 ?q1 r2 = Inr (res, q', r', h')" and
      iq: "queue_inv q'" and ir: "queue_inv r'" and
      sp: "queue_contents ?q1 = moved @ rest" and
      rc: "queue_contents r' = queue_contents r2 @ moved" and
      fin: "if res = 0 then rest = [] \<and> queue_contents q' = []
            else rest \<noteq> [] \<and> queue_contents q' = tl rest"
      by blast
    have "move_to_ready (Suc (Suc n)) h q r = Inr (res, q', r', h')"
      using ne by (subst move_to_ready.simps) (simp add: deq e mv)
    moreover have "queue_contents q = (x # moved) @ rest" using cont sp by simp
    moreover have "queue_contents r' = queue_contents r @ (x # moved)" using rc c by simp
    ultimately show ?thesis using iq ir fin ne by blast
  qed
qed


lemma timestamp_dequeue_inv:
  assumes "queue_inv q" and "size_q q \<noteq> 0"
  shows "\<exists>t q'. timestamp_queue_dequeue q = Inr (t, q') \<and> queue_inv q' \<and> size_q q' = size_q q"
proof (cases "count q = 0")
  case True
  have "data q \<noteq> None" using assms by (auto simp: queue_inv_def split: option.splits)
  from dequeue_empty [OF assms(2) this True] show ?thesis
    using assms(1) by (simp add: timestamp_queue_dequeue_def)
next
  case False
  from dequeue_nonempty [OF assms(1) False] show ?thesis
    by (auto simp: timestamp_queue_dequeue_def)
qed

lemma process_output_surface_flush:
  assumes "queue_inv (timestamp_list ctx)" and "size_q (timestamp_list ctx) \<noteq> 0"
    and "i < length (output_surfaces ctx)" and "known_codec avctx"
  shows "\<exists>res tl1 d pkt'.
           process_output_surface api avctx dev ctx pkt (Some i) =
             Inr (res, ctx\<lparr>timestamp_list := tl1, last_dts := d\<rparr>, pkt') \<and>
           queue_inv tl1 \<and> size_q tl1 = size_q (timestamp_list ctx)"
proof -
  define good :: "fault + (int \<times> NvencContext \<times> AVPacket) \<Rightarrow> bool" where
    "good r = (\<exists>res tl1 d pkt'. r = Inr (res, ctx\<lparr>timestamp_list := tl1, last_dts := d\<rparr>, pkt') \<and>
                 queue_inv tl1 \<and> size_q tl1 = size_q (timestamp_list ctx))" for r
  from timestamp_dequeue_inv [OF assms(1,2)] obtain t q' where
    d: "timestamp_queue_dequeue (timestamp_list ctx) = Inr (t, q')" and
    i: "queue_inv q'" and s: "size_q q' = size_q (timestamp_list ctx)" by blast
  have E: "good (process_output_error ctx res p)" for res p
  proof -
    have "process_output_error ctx res p =
            Inr (res, ctx\<lparr>timestamp_list := q', last_dts := last_dts ctx\<rparr>, p)"
      by (simp add: process_output_error_def d)
    then show ?thesis unfolding good_def using i s by blast
  qed
  have T: "good (process_output_timestamps dev ctx p)" for p
  proof -
    have "\<exists>pkt4. process_output_timestamps dev ctx p =
            Inr (0, ctx\<lparr>timestamp_list := q', last_dts := dts pkt4\<rparr>, pkt4)"
      unfolding process_output_timestamps_def d Let_def sum.case prod.case by blast
    then show ?thesis unfolding good_def using i s by blast
  qed
  have N: "good (Inr (AVERROR_ENOMEM, ctx, pkt))"
    unfolding good_def
    by (rule exI [of _ AVERROR_ENOMEM], rule exI [of _ "timestamp_list ctx"],
        rule exI [of _ "last_dts ctx"], rule exI [of _ pkt])
       (simp add: assms(1))
  have "good (process_output_surface api avctx dev ctx pkt (Some i))"
    unfolding process_output_surface_def Let_def
    using E T N assms(3,4) by (auto simp: known_codec_def)
  then show ?thesis unfolding good_def .
qed

lemma input_of_cong:
  "output_surfaces c = output_surfaces ctx \<Longrightarrow> input_of c = input_of ctx"
  by (rule ext) (simp add: input_of_def split: option.splits)

lemma surface_ok_cong:
  "output_surfaces c = output_surfaces ctx \<Longrightarrow> input_surfaces c = input_surfaces ctx \<Longrightarrow>
   surface_ok c = surface_ok ctx"
  by (rule ext) (simp add: surface_ok_def split: option.splits)

lemma flush_inv_sub:
  assumes "flush_inv ctx"
    and "output_surfaces c = output_surfaces ctx" and "input_surfaces c = input_surfaces ctx"
    and "queue_inv (output_surface_queue c)" and "queue_inv (output_surface_ready_queue c)"
    and "queue_inv (timestamp_list c)"
    and "set (queued c) \<subseteq> set (queued ctx)" and "length (queued c) \<le> length (queued ctx)"
    and "distinct (map (input_of ctx) (queued c))"
    and "queued c = [] \<or> size_q (timestamp_list c) \<noteq> 0"
  shows "flush_inv c"
proof -
  have "list_all (surface_ok ctx) (queued ctx)" using assms(1) by (simp add: flush_inv_def)
  then have "list_all (surface_ok ctx) (queued c)"
    using assms(7) by (auto simp: list_all_iff)
  moreover have "length (queued c) < 2 ^ 31"
    using assms(1,8) by (simp add: flush_inv_def)
  ultimately show ?thesis
    using assms(2-6,9,10)
    by (simp add: flush_inv_def input_of_cong [OF assms(2)] surface_ok_cong [OF assms(2,3)])
qed

lemma surface_okD:
  assumes "surface_ok ctx s"
  shows "\<exists>i j. s = Some i \<and> i < length (output_surfaces ctx) \<and>
           input_surface (output_surfaces ctx ! i) = Some j \<and>
           j < length (input_surfaces ctx) \<and> lockCount (input_surfaces ctx ! j) \<noteq> 0"
  using assms by (auto simp: surface_ok_def split: option.splits)

lemma flush_inv_release:
  assumes "flush_inv B" and "i < length (output_surfaces B)"
    and "Some j \<notin> set (map (input_of B) (queued B))"
  shows "flush_inv ((set_busy B i b)\<lparr>input_surfaces := (input_surfaces (set_busy B i b))[j := v]\<rparr>)"
    (is "flush_inv ?C")
proof -
  have q: "queued ?C = queued B" by (simp add: queued_def set_busy_def)
  have io: "input_of ?C = input_of B"
  proof (rule ext)
    fix s show "input_of ?C s = input_of B s"
      using assms(2)
      by (cases s) (auto simp: input_of_def set_busy_def nth_list_update)
  qed
  have ok: "surface_ok ?C s" if "s \<in> set (queued B)" for s
  proof -
    have "surface_ok B s" using assms(1) that by (simp add: flush_inv_def list_all_iff)
    from surface_okD [OF this]
    obtain i' j' where s: "s = Some i'" and i': "i' < length (output_surfaces B)"
      and inp: "input_surface (output_surfaces B ! i') = Some j'"
      and j': "j' < length (input_surfaces B)" and l: "lockCount (input_surfaces B ! j') \<noteq> 0"
      by blast
    have "input_of B s = Some j'" using s inp by (simp add: input_of_def)
    then have "j' \<noteq> j" using assms(3) that by force
    moreover have "input_surface ((output_surfaces B)[i := (output_surfaces B ! i)\<lparr>busy := b\<rparr>] ! i')
                     = Some j'"
      using i' inp by (cases "i' = i") simp_all
    ultimately show ?thesis
      using s i' j' l by (simp add: surface_ok_def set_busy_def)
  qed
  show ?thesis
    using assms(1) ok unfolding flush_inv_def q io
    by (simp add: list_all_iff set_busy_def)
qed

lemma nvenc_retrieve_flush:
  assumes "flush_inv ctx" and "count (output_surface_ready_queue ctx) \<noteq> 0"
    and "known_codec avctx"
  shows "\<exists>ret ctx' pkt' g'. nvenc_retrieve api dev avctx ctx pkt g = Inr (ret, ctx', pkt', g') \<and>
           flush_inv ctx' \<and> length (queued ctx') < length (queued ctx)"
proof -
  let ?r = "output_surface_ready_queue ctx"
  let ?r1 = "?r\<lparr>count := count ?r - 1\<rparr>"
  have ir: "queue_inv ?r" and its: "queue_inv (timestamp_list ctx)"
    and iq: "queue_inv (output_surface_queue ctx)"
    using assms(1) by (simp_all add: flush_inv_def)
  from out_surf_dequeue_nonempty [OF ir assms(2)] obtain x where
    deq: "out_surf_queue_dequeue ?r = Inr (x, ?r1)" and
    cont: "queue_contents ?r = x # queue_contents ?r1" and inv1: "queue_inv ?r1"
    by blast
  have qc: "queued ctx = queue_contents (output_surface_queue ctx) @ x # queue_contents ?r1"
    using cont by (simp add: queued_def)
  then have ne: "queued ctx \<noteq> []" by simp
  then have sz: "size_q (timestamp_list ctx) \<noteq> 0" using assms(1) by (auto simp: flush_inv_def)
  have "surface_ok ctx x" using assms(1) qc by (simp add: flush_inv_def)
  from surface_okD [OF this]
  obtain i j where x: "x = Some i" and i: "i < length (output_surfaces ctx)"
    and inp: "input_surface (output_surfaces ctx ! i) = Some j"
    and j: "j < length (input_surfaces ctx)" and l: "lockCount (input_surfaces ctx ! j) \<noteq> 0"
    by blast
  let ?A = "ctx\<lparr>output_surface_ready_queue := ?r1\<rparr>"
  have "\<exists>res tl1 d pkt'.
           process_output_surface api avctx (bitstream dev) ?A pkt (Some i) =
             Inr (res, ?A\<lparr>timestamp_list := tl1, last_dts := d\<rparr>, pkt') \<and>
           queue_inv tl1 \<and> size_q tl1 = size_q (timestamp_list ?A)"
    by (rule process_output_surface_flush) (use its sz i assms(3) in simp_all)
  then obtain res tl1 d pkt' where
    P: "process_output_surface api avctx (bitstream dev) ?A pkt (Some i) =
             Inr (res, ?A\<lparr>timestamp_list := tl1, last_dts := d\<rparr>, pkt')"
    and itl: "queue_inv tl1" and stl: "size_q tl1 = size_q (timestamp_list ctx)"
    by auto
  let ?B = "?A\<lparr>timestamp_list := tl1, last_dts := d\<rparr>"
  have qB: "queued ?B = queue_contents (output_surface_queue ctx) @ queue_contents ?r1"
    by (simp add: queued_def)
  have dist: "distinct (map (input_of ctx) (queued ctx))"
    using assms(1) by (simp add: flush_inv_def)
  have invB: "flush_inv ?B"
    by (rule flush_inv_sub [OF assms(1)])
       (use iq inv1 itl stl sz dist in \<open>auto simp: qB qc\<close>)
  have lenB: "length (queued ?B) < length (queued ctx)" by (simp add: qB qc)
  show ?thesis
  proof (cases "res = 0")
    case False
    then have r: "nvenc_retrieve api dev avctx ctx pkt g = Inr (res, ?B, pkt', g)"
      by (simp add: nvenc_retrieve_def deq x P)
    show ?thesis unfolding r using invB lenB by simp
  next
    case True
    let ?C2 = "set_busy ?B i 0"
    let ?C = "?C2\<lparr>input_surfaces := (input_surfaces ?C2)
                 [j := (input_surfaces ?C2 ! j)\<lparr>lockCount := lockCount (input_surfaces ?C2 ! j) - 1\<rparr>]\<rparr>"
    have r: "nvenc_retrieve api dev avctx ctx pkt g = Inr (0, ?C, pkt', 1)"
      using True i inp j l
      by (simp add: nvenc_retrieve_def deq x P Let_def set_busy_def)
    have "input_of ctx x = Some j" using x inp by (simp add: input_of_def)
    then have "Some j \<notin> set (map (input_of ctx) (queued ?B))"
      using dist unfolding qB qc by auto
    moreover have "input_of ?B = input_of ctx" by (rule input_of_cong) simp
    ultimately have nj: "Some j \<notin> set (map (input_of ?B) (queued ?B))" by simp
    have invC: "flush_inv ?C"
      by (rule flush_inv_release [OF invB _ nj]) (use i in simp)
    have "queued ?C = queued ?B" by (simp add: queued_def set_busy_def)
    then have lenC: "length (queued ?C) < length (queued ctx)" using lenB by simp
    show ?thesis unfolding r using invC lenC by simp
  qed
qed

lemma queued_empty_counts:
  assumes "flush_inv ctx"
  shows "queued ctx = [] \<longleftrightarrow>
         count (output_surface_queue ctx) = 0 \<and> count (output_surface_ready_queue ctx) = 0"
proof -
  have "length (queue_contents (output_surface_queue ctx)) = unat (count (output_surface_queue ctx))"
    and "length (queue_contents (output_surface_ready_queue ctx)) =
         unat (count (output_surface_ready_queue ctx))"
    using assms by (simp_all add: flush_inv_def queue_contents_length)
  then show ?thesis by (auto simp: queued_def unat_eq_0)
qed

lemma flush_step:
  assumes "flush_inv ctx" and "encode_status dev = NV_ENC_SUCCESS"
    and "queued ctx = [] \<or> known_codec avctx"
  shows "\<exists>ret ctx' pkt' g'.
           nvenc_encode_frame (Suc (Suc n)) api dev avctx ctx pkt None g = Inr (ret, ctx', pkt', g') \<and>
           flush_inv ctx' \<and>
           (queued ctx = [] \<longrightarrow> ret = 0 \<and> g' = 0 \<and> ctx' = ctx) \<and>
           (queued ctx \<noteq> [] \<longrightarrow> length (queued ctx') < length (queued ctx))"
proof -
  let ?q = "output_surface_queue ctx" and ?r = "output_surface_ready_queue ctx"
  have iq: "queue_inv ?q" and ir: "queue_inv ?r" and its: "queue_inv (timestamp_list ctx)"
    and dist: "distinct (map (input_of ctx) (queued ctx))"
    using assms(1) by (simp_all add: flush_inv_def)
  have "length (queued ctx) = unat (count ?q) + unat (count ?r)"
    using iq ir by (simp add: queued_def queue_contents_length)
  moreover have "length (queued ctx) < 2 ^ 31" using assms(1) by (simp add: flush_inv_def)
  ultimately have room: "unat (count ?q) + unat (count ?r) < 2 ^ 31" by simp
  from move_to_ready_spec [OF iq ir room, of n "surface_heap dev"]
  obtain res q' r' h' moved rest where
    mv: "move_to_ready (Suc (Suc n)) (surface_heap dev) ?q ?r = Inr (res, q', r', h')" and
    iq': "queue_inv q'" and ir': "queue_inv r'" and
    z: "count ?q = 0 \<longrightarrow> res = 0 \<and> q' = ?q \<and> r' = ?r" and
    sp: "queue_contents ?q = moved @ rest" and
    rc: "queue_contents r' = queue_contents ?r @ moved" and
    fin: "if res = 0 then rest = [] \<and> queue_contents q' = []
          else rest \<noteq> [] \<and> queue_contents q' = tl rest"
    by blast
  let ?c2 = "ctx\<lparr>output_surface_queue := q', output_surface_ready_queue := r'\<rparr>"
  have bg: "nvenc_before_gate (Suc (Suc n)) dev avctx ctx None =
              (if res \<noteq> 0 then Return res ?c2 else Next ?c2)"
    by (simp add: nvenc_before_gate_def nvenc_queue_output_def Let_def assms(2) mv)
  have qctx: "queued ctx = moved @ rest @ queue_contents ?r"
    using sp by (simp add: queued_def)
  have q2: "queued ?c2 = (if res = 0 then [] else tl rest) @ queue_contents ?r @ moved"
    using fin rc by (simp add: queued_def)
  have sub: "set (queued ?c2) \<subseteq> set (queued ctx)"
  proof (cases "res = 0")
    case True
    then show ?thesis unfolding q2 qctx by auto
  next
    case False
    then have "rest \<noteq> []" using fin by simp
    then have "set (tl rest) \<subseteq> set rest" by (auto dest: list.set_sel(2))
    then show ?thesis unfolding q2 qctx by auto
  qed
  have len: "length (queued ?c2) \<le> length (queued ctx)"
    unfolding q2 qctx by simp
  have d2: "distinct (map (input_of ctx) (queued ?c2))"
  proof (cases "res = 0")
    case True
    then show ?thesis using dist fin unfolding q2 qctx by auto
  next
    case False
    then have "rest = hd rest # tl rest" using fin by simp
    then have "queued ctx = moved @ (hd rest # tl rest) @ queue_contents ?r"
      using qctx by simp
    then show ?thesis using dist False unfolding q2 by auto
  qed
  have ts: "queued ?c2 = [] \<or> size_q (timestamp_list ?c2) \<noteq> 0"
    using assms(1) sub by (auto simp: flush_inv_def)
  have inv2: "flush_inv ?c2"
    by (rule flush_inv_sub [OF assms(1)]) (use iq' ir' its sub len d2 ts in simp_all)
  show ?thesis
  proof (cases "res = 0")
    case False
    then have e: "nvenc_encode_frame (Suc (Suc n)) api dev avctx ctx pkt None g = Inr (res, ?c2, pkt, g)"
      by (simp add: nvenc_encode_frame_def bg)
    have "rest \<noteq> []" using False fin by simp
    then have "queued ctx \<noteq> []" and "length (queued ?c2) < length (queued ctx)"
      using False unfolding q2 qctx by simp_all
    then show ?thesis unfolding e using inv2 by simp
  next
    case True
    then have bg': "nvenc_before_gate (Suc (Suc n)) dev avctx ctx None = Next ?c2"
      by (simp add: bg)
    have q2': "queued ?c2 = queue_contents ?r @ queue_contents ?q"
      using True fin sp unfolding q2 by simp
    show ?thesis
    proof (cases "queued ctx = []")
      case e: True
      then have c0: "count ?q = 0" "count ?r = 0"
        using queued_empty_counts [OF assms(1)] by simp_all
      then have same: "?c2 = ctx" using z by simp
      have "\<not> emission_gate ctx False" using c0 by (simp add: emission_gate_def)
      then have "nvenc_encode_frame (Suc (Suc n)) api dev avctx ctx pkt None g = Inr (0, ctx, pkt, 0)"
        unfolding nvenc_encode_frame_def bg' same by simp
      then show ?thesis using assms(1) e by simp
    next
      case ne: False
      have l2: "length (queued ?c2) = length (queued ctx)"
        unfolding q2' by (simp add: queued_def)
      then have "queued ?c2 \<noteq> []" using ne by auto
      moreover have "count (output_surface_queue ?c2) = 0"
      proof -
        have "length (queue_contents q') = unat (count q')" using iq' by (rule queue_contents_length)
        then show ?thesis using True fin by (simp add: unat_eq_0)
      qed
      ultimately have cr: "count (output_surface_ready_queue ?c2) \<noteq> 0"
        using queued_empty_counts [OF inv2] by blast
      then have gate: "emission_gate ?c2 False" by (simp add: emission_gate_def)
      have e: "nvenc_encode_frame (Suc (Suc n)) api dev avctx ctx pkt None g =
                 nvenc_retrieve api dev avctx ?c2 pkt g"
        unfolding nvenc_encode_frame_def bg' using gate by simp
      have kc: "known_codec avctx" using ne assms(3) by simp
      from nvenc_retrieve_flush [OF inv2 cr kc, of api dev pkt g]
      show ?thesis unfolding e l2 using ne by simp
    qed
  qed
qed

lemma flush_run_drains:
  assumes "flush_inv ctx" and "\<forall>dev \<in> set devs. encode_status dev = NV_ENC_SUCCESS"
    and "queued ctx = [] \<or> known_codec avctx"
  shows "\<exists>rs. flush_run (Suc (Suc n)) api devs avctx ctx pkt g = Inr rs \<and>
           length rs = length devs \<and>
           (\<forall>m < length rs. length (queued ctx) \<le> m \<longrightarrow> drained (rs ! m))"
  using assms
proof (induction devs arbitrary: ctx g)
  case Nil
  show ?case by simp
next
  case (Cons dev devs)
  have st: "encode_status dev = NV_ENC_SUCCESS" using Cons.prems(2) by simp
  from flush_step [OF Cons.prems(1) st Cons.prems(3), of n api pkt g]
  obtain ret ctx' pkt' g' where
    e: "nvenc_encode_frame (Suc (Suc n)) api dev avctx ctx pkt None g = Inr (ret, ctx', pkt', g')"
    and inv': "flush_inv ctx'"
    and z: "queued ctx = [] \<longrightarrow> ret = 0 \<and> g' = 0 \<and> ctx' = ctx"
    and dec: "queued ctx \<noteq> [] \<longrightarrow> length (queued ctx') < length (queued ctx)"
    by blast
  have st': "\<forall>dev \<in> set devs. encode_status dev = NV_ENC_SUCCESS" using Cons.prems(2) by simp
  have kc': "queued ctx' = [] \<or> known_codec avctx" using Cons.prems(3) z by auto
  from Cons.IH [OF inv' st' kc', of g'] obtain rs where
    r: "flush_run (Suc (Suc n)) api devs avctx ctx' pkt g' = Inr rs" and
    l: "length rs = length devs" and
    d: "\<forall>m < length rs. length (queued ctx') \<le> m \<longrightarrow> drained (rs ! m)"
    by blast
  have run: "flush_run (Suc (Suc n)) api (dev # devs) avctx ctx pkt g = Inr ((ret, ctx', pkt', g') # rs)"
    by (simp add: e r)
  have "drained (((ret, ctx', pkt', g') # rs) ! m)"
    if m: "m < Suc (length rs)" and le: "length (queued ctx) \<le> m" for m
  proof (cases m)
    case 0
    then have em: "queued ctx = []" using le by simp
    then have "ret = 0 \<and> g' = 0 \<and> ctx' = ctx" using z by simp
    moreover have "count (output_surface_queue ctx) = 0 \<and> count (output_surface_ready_queue ctx) = 0"
      using queued_empty_counts [OF Cons.prems(1)] em by simp
    ultimately show ?thesis using 0 by (simp add: drained_def)
  next
    case (Suc m')
    have "length (queued ctx') \<le> m'"
    proof (cases "queued ctx = []")
      case True
      then show ?thesis using z by simp
    next
      case False
      then show ?thesis using dec le Suc by simp
    qed
    then show ?thesis using d m Suc by simp
  qed
  then show ?case unfolding run using l by simp
qed

lemma locked_le: "locked xs \<le> length xs"
  by (simp add: locked_def)

lemma locked_update:
  assumes "j < length xs"
  shows "locked (xs[j := v]) + (if lockCount (xs ! j) \<noteq> 0 then 1 else 0) =
         locked xs + (if lockCount v \<noteq> 0 then 1 else 0)"
proof -
  have a: "xs[j := v] = take j xs @ v # drop (Suc j) xs"
    using assms by (rule upd_conv_take_nth_drop)
  have "xs = take j xs @ xs ! j # drop (Suc j) xs"
    using assms by (rule id_take_nth_drop)
  then have "locked xs = locked (take j xs @ xs ! j # drop (Suc j) xs)" by simp
  then show ?thesis unfolding a by (simp add: locked_def)
qed

lemma queued_length_le:
  assumes "list_all (surface_ok c) L" and "distinct (map (input_of c) L)"
  shows "length L \<le> length (input_surfaces c)"
proof -
  have "input_of c ` set L \<subseteq> Some ` {..<length (input_surfaces c)}"
  proof
    fix y assume "y \<in> input_of c ` set L"
    then obtain s where s: "s \<in> set L" and y: "y = input_of c s" by blast
    have "surface_ok c s" using assms(1) s by (simp add: list_all_iff)
    from surface_okD [OF this] show "y \<in> Some ` {..<length (input_surfaces c)}"
      using y by (auto simp: input_of_def)
  qed
  then have "card (input_of c ` set L) \<le> card (Some ` {..<length (input_surfaces c)})"
    by (intro card_mono) auto
  also have "\<dots> = length (input_surfaces c)" by (simp add: card_image)
  finally have "card (set (map (input_of c) L)) \<le> length (input_surfaces c)" by simp
  then show ?thesis using distinct_card [OF assms(2)] by simp
qed

lemma set_busy_fields [simp]:
  "input_surfaces (set_busy c i b) = input_surfaces c"
  "output_surface_queue (set_busy c i b) = output_surface_queue c"
  "output_surface_ready_queue (set_busy c i b) = output_surface_ready_queue c"
  "timestamp_list (set_busy c i b) = timestamp_list c"
  "length (output_surfaces (set_busy c i b)) = length (output_surfaces c)"
  "queued (set_busy c i b) = queued c"
  by (simp_all add: set_busy_def queued_def)

lemma set_busy_input:
  "input_surface (output_surfaces (set_busy c i b) ! k) = input_surface (output_surfaces c ! k)"
  by (cases "k = i"; cases "i < length (output_surfaces c)")
     (simp_all add: set_busy_def list_update_beyond)

lemma set_busy_input_of [simp]: "input_of (set_busy c i b) = input_of c"
  by (rule ext) (simp add: input_of_def set_busy_input split: option.splits)

lemma set_busy_surface_ok [simp]: "surface_ok (set_busy c i b) = surface_ok c"
  by (rule ext) (simp add: surface_ok_def set_busy_input split: option.splits)

text \<open>The two queues change; nothing new is queued.\<close>

lemma ctx_inv_sub:
  assumes "ctx_inv c" and "queue_inv q'" and "queue_inv r'"
    and "set (queue_contents q' @ queue_contents r') \<subseteq> set (queued c)"
    and "distinct (map (input_of c) (queue_contents q' @ queue_contents r'))"
  shows "ctx_inv (c\<lparr>output_surface_queue := q', output_surface_ready_queue := r'\<rparr>)"
    (is "ctx_inv ?C")
proof -
  let ?L = "queue_contents q' @ queue_contents r'"
  have f: "flush_inv c" and u: "list_all (in_use c) (queued c)"
    and t: "unat (count (timestamp_list c)) \<le> locked (input_surfaces c)"
    and p: "length (input_surfaces c) < 2 ^ 31"
    using assms(1) by (simp_all add: ctx_inv_def)
  have q: "queued ?C = ?L" by (simp add: queued_def)
  have io: "input_of ?C = input_of c" by (rule input_of_cong) simp
  have so: "surface_ok ?C = surface_ok c" by (rule surface_ok_cong) simp_all
  have iu: "in_use ?C = in_use c" by (rule ext) (simp add: in_use_def split: option.splits)
  have ok: "list_all (surface_ok c) ?L"
    using f assms(4) by (auto simp: flush_inv_def list_all_iff)
  have "length ?L \<le> length (input_surfaces c)"
    using ok assms(5) by (rule queued_length_le)
  then have len: "length ?L < 2 ^ 31" using p by simp
  have ts: "?L = [] \<or> size_q (timestamp_list c) \<noteq> 0"
    using f assms(4) by (cases "queued c = []") (auto simp: flush_inv_def)
  have "flush_inv ?C"
    unfolding flush_inv_def q io so
    using f assms(2,3,5) ok len ts by (simp add: flush_inv_def)
  moreover have "list_all (in_use ?C) (queued ?C)"
    unfolding q iu using u assms(4) by (auto simp: list_all_iff)
  ultimately show ?thesis using t p by (simp add: ctx_inv_def)
qed

text \<open>The two queues change and the surface of this call is queued and marked busy.\<close>

lemma ctx_inv_enqueue:
  assumes "ctx_inv c" and "fresh_sub c i" and "queue_inv q'" and "queue_inv r'"
    and "set (queue_contents q' @ queue_contents r') \<subseteq> insert (Some i) (set (queued c))"
    and "distinct (map (input_of c) (queue_contents q' @ queue_contents r'))"
  shows "ctx_inv (set_busy (c\<lparr>output_surface_queue := q', output_surface_ready_queue := r'\<rparr>) i 1)"
    (is "ctx_inv (set_busy ?C i 1)")
proof -
  let ?L = "queue_contents q' @ queue_contents r'"
  have f: "flush_inv c" and u: "list_all (in_use c) (queued c)"
    and t: "unat (count (timestamp_list c)) \<le> locked (input_surfaces c)"
    and p: "length (input_surfaces c) < 2 ^ 31"
    using assms(1) by (simp_all add: ctx_inv_def)
  have oki: "surface_ok c (Some i)" and sz: "size_q (timestamp_list c) \<noteq> 0"
    using assms(2) by (simp_all add: fresh_sub_def)
  then have il: "i < length (output_surfaces c)" by (simp add: surface_ok_def)
  have q: "queued (set_busy ?C i 1) = ?L" by (simp add: queued_def)
  have io: "input_of (set_busy ?C i 1) = input_of c"
    by (simp add: input_of_cong [of ?C c])
  have so: "surface_ok (set_busy ?C i 1) = surface_ok c"
    by (simp add: surface_ok_cong [of ?C c])
  have ok: "list_all (surface_ok c) ?L"
    using f assms(5) oki by (auto simp: flush_inv_def list_all_iff)
  have "length ?L \<le> length (input_surfaces c)"
    using ok assms(6) by (rule queued_length_le)
  then have len: "length ?L < 2 ^ 31" using p by simp
  have "flush_inv (set_busy ?C i 1)"
    unfolding flush_inv_def q io so
    using f assms(3,4,6) ok len sz by (simp add: flush_inv_def)
  moreover have "in_use (set_busy ?C i 1) s" if "s \<in> set ?L" for s
  proof (cases "s = Some i")
    case True
    then show ?thesis using il by (simp add: in_use_def set_busy_def)
  next
    case False
    then have "s \<in> set (queued c)" using that assms(5) by auto
    then have "in_use c s" using u by (simp add: list_all_iff)
    then show ?thesis
      using False by (auto simp: in_use_def set_busy_def nth_list_update split: option.splits)
  qed
  then have "list_all (in_use (set_busy ?C i 1)) (queued (set_busy ?C i 1))"
    unfolding q by (simp add: list_all_iff)
  ultimately show ?thesis using t p by (simp add: ctx_inv_def)
qed

lemma first_free_input_Some:
  "first_free_input xs is = Inr (Some j) \<Longrightarrow> j < length xs \<and> lockCount (xs ! j) = 0"
  by (induction "is") (auto split: if_splits)

lemma first_free_output_Some:
  "first_free_output xs is = Inr (Some i) \<Longrightarrow> i < length xs \<and> busy (xs ! i) = 0"
  by (induction "is") (auto split: if_splits)

lemma ctx_inv_lock:
  assumes "ctx_inv c" and "j < length (input_surfaces c)"
    and "lockCount (input_surfaces c ! j) = 0" and "lockCount v \<noteq> 0"
  shows "ctx_inv (c\<lparr>input_surfaces := (input_surfaces c)[j := v]\<rparr>)" (is "ctx_inv ?C")
    and "Suc (unat (count (timestamp_list c))) \<le> locked ((input_surfaces c)[j := v])"
    and "Some j \<notin> set (map (input_of c) (queued c))"
proof -
  have f: "flush_inv c" and u: "list_all (in_use c) (queued c)"
    and t: "unat (count (timestamp_list c)) \<le> locked (input_surfaces c)"
    and p: "length (input_surfaces c) < 2 ^ 31"
    using assms(1) by (simp_all add: ctx_inv_def)
  have q: "queued ?C = queued c" by (simp add: queued_def)
  have io: "input_of ?C = input_of c" by (rule input_of_cong) simp
  have iu: "in_use ?C = in_use c" by (rule ext) (simp add: in_use_def split: option.splits)
  have l: "locked ((input_surfaces c)[j := v]) = Suc (locked (input_surfaces c))"
    using locked_update [OF assms(2), of v] assms(3,4) by simp
  show "Suc (unat (count (timestamp_list c))) \<le> locked ((input_surfaces c)[j := v])"
    using t l by simp
  have other: "surface_ok ?C s \<and> input_of c s \<noteq> Some j" if "s \<in> set (queued c)" for s
  proof -
    have "surface_ok c s" using f that by (simp add: flush_inv_def list_all_iff)
    from surface_okD [OF this]
    obtain i' j' where s: "s = Some i'" and i': "i' < length (output_surfaces c)"
      and inp: "input_surface (output_surfaces c ! i') = Some j'"
      and j': "j' < length (input_surfaces c)" and lk: "lockCount (input_surfaces c ! j') \<noteq> 0"
      by blast
    have "j' \<noteq> j" using lk assms(3) by auto
    then show ?thesis using s i' inp j' lk by (simp add: surface_ok_def input_of_def)
  qed
  then show "Some j \<notin> set (map (input_of c) (queued c))" by force
  have "flush_inv ?C"
    unfolding flush_inv_def q io using f other by (simp add: flush_inv_def list_all_iff)
  then show "ctx_inv ?C"
    unfolding ctx_inv_def q iu using u t l p by simp
qed

lemma ctx_inv_assign:
  assumes "ctx_inv c" and "i < length (output_surfaces c)" and "busy (output_surfaces c ! i) = 0"
  shows "ctx_inv (c\<lparr>output_surfaces :=
                     (output_surfaces c)[i := (output_surfaces c ! i)\<lparr>input_surface := x\<rparr>]\<rparr>)"
      (is "ctx_inv ?C")
    and "map (input_of (c\<lparr>output_surfaces :=
                     (output_surfaces c)[i := (output_surfaces c ! i)\<lparr>input_surface := x\<rparr>]\<rparr>))
           (queued c) = map (input_of c) (queued c)"
proof -
  have f: "flush_inv c" and u: "list_all (in_use c) (queued c)"
    and t: "unat (count (timestamp_list c)) \<le> locked (input_surfaces c)"
    and p: "length (input_surfaces c) < 2 ^ 31"
    using assms(1) by (simp_all add: ctx_inv_def)
  have q: "queued ?C = queued c" by (simp add: queued_def)
  have same: "surface_ok ?C s \<and> in_use ?C s \<and> input_of ?C s = input_of c s"
    if "s \<in> set (queued c)" for s
  proof -
    have ok: "surface_ok c s" using f that by (simp add: flush_inv_def list_all_iff)
    have "in_use c s" using u that by (simp add: list_all_iff)
    then obtain i' where s: "s = Some i'" and b: "busy (output_surfaces c ! i') \<noteq> 0"
      by (auto simp: in_use_def split: option.splits)
    have "i' \<noteq> i" using b assms(3) by auto
    then show ?thesis
      using s b ok by (auto simp: surface_ok_def in_use_def input_of_def split: option.splits)
  qed
  then show m: "map (input_of ?C) (queued c) = map (input_of c) (queued c)"
    by simp
  have "flush_inv ?C"
    unfolding flush_inv_def q m using f same by (simp add: flush_inv_def list_all_iff)
  then show "ctx_inv ?C"
    unfolding ctx_inv_def q using same t p by (simp add: list_all_iff)
qed

lemma ctx_inv_timestamps:
  assumes "ctx_inv c" and "queue_inv tl1"
    and "unat (count tl1) \<le> locked (input_surfaces c)"
    and "queued c = [] \<or> size_q tl1 \<noteq> 0"
  shows "ctx_inv (c\<lparr>timestamp_list := tl1, last_dts := d\<rparr>)" (is "ctx_inv ?C")
proof -
  have q: "queued ?C = queued c" by (simp add: queued_def)
  have io: "input_of ?C = input_of c" by (rule input_of_cong) simp
  have so: "surface_ok ?C = surface_ok c" by (rule surface_ok_cong) simp_all
  have iu: "in_use ?C = in_use c" by (rule ext) (simp add: in_use_def split: option.splits)
  show ?thesis
    unfolding ctx_inv_def flush_inv_def q io so iu
    using assms by (simp add: ctx_inv_def flush_inv_def)
qed

lemma timestamp_enqueue_cases:
  assumes "queue_inv q" and "unat (count q) < 2 ^ 31"
  shows "\<exists>res q' h'. timestamp_queue_enqueue (Suc (Suc n)) h q t = Inr (res, q', h') \<and>
           (if res = 0 then queue_inv q' \<and> unat (count q') = Suc (unat (count q)) \<and> size_q q' \<noteq> 0
            else q' = q)"
proof (cases "needs_alloc q \<and> heap_fails h")
  case True
  then show ?thesis
    using enqueue_alloc_fails [OF assms(1), of h "Suc n" t]
    by (simp add: timestamp_queue_enqueue_def)
next
  case False
  then have "needs_alloc q \<longrightarrow> \<not> heap_fails h" by simp
  from enqueue_succeeds [OF assms this, of n t] obtain q' where
    e: "data_queue_enqueue (Suc (Suc n)) h q t = Inr (0, q', if needs_alloc q then tl h else h)"
    and c: "queue_contents q' = queue_contents q @ [t]" and i: "queue_inv q'"
    and s: "size_q q' \<noteq> 0" by blast
  have "length (queue_contents q') = Suc (length (queue_contents q))" using c by simp
  then have "unat (count q') = Suc (unat (count q))"
    using i assms(1) by (simp add: queue_contents_length)
  then show ?thesis using e i s by (simp add: timestamp_queue_enqueue_def)
qed

lemma surf_enqueue_cases:
  assumes "queue_inv q" and "unat (count q) < 2 ^ 31"
  shows "\<exists>res q' h'. out_surf_queue_enqueue (Suc (Suc n)) h q x = Inr (res, q', h') \<and>
           (if res = 0 then queue_inv q' \<and> queue_contents q' = queue_contents q @ [x]
            else q' = q)"
proof (cases "needs_alloc q \<and> heap_fails h")
  case True
  then show ?thesis
    using enqueue_alloc_fails [OF assms(1), of h "Suc n" x]
    by (simp add: out_surf_queue_enqueue_def)
next
  case False
  then have "needs_alloc q \<longrightarrow> \<not> heap_fails h" by simp
  from enqueue_succeeds [OF assms this, of n x] show ?thesis
    by (auto simp: out_surf_queue_enqueue_def)
qed


lemma nvenc_submit_frame_inv:
  assumes "ctx_inv ctx"
  shows "submit_inv (nvenc_submit_frame (Suc (Suc n)) dev avctx ctx fr)"
proof -
  let ?range = "[0..<nat (sint (max_surface_count ctx))]"
  have A: "submit_inv (Abort f)" for f by (simp add: submit_inv_def)
  have R0: "submit_inv (Return res ctx)" for res using assms by (simp add: submit_inv_def)
  show ?thesis
  proof (cases "first_free_input (input_surfaces ctx) ?range")
    case (Inl f)
    then show ?thesis by (simp add: nvenc_submit_frame_def submit_inv_def)
  next
    case (Inr jo)
    show ?thesis
    proof (cases jo)
      case None
      then show ?thesis using Inr by (simp add: nvenc_submit_frame_def submit_inv_def)
    next
      case (Some j)
      then have ffi: "first_free_input (input_surfaces ctx) ?range = Inr (Some j)"
        using Inr by simp
      from first_free_input_Some [OF ffi]
      have jl: "j < length (input_surfaces ctx)" and j0: "lockCount (input_surfaces ctx ! j) = 0"
        by simp_all
      define c1 where
        "c1 = ctx\<lparr>input_surfaces := (input_surfaces ctx)[j := (input_surfaces ctx ! j)\<lparr>lockCount := 1\<rparr>]\<rparr>"
      define c2 where
        "c2 i = c1\<lparr>output_surfaces :=
                   (output_surfaces c1)[i := (output_surfaces c1 ! i)\<lparr>input_surface := Some j\<rparr>]\<rparr>" for i
      have inv1: "ctx_inv c1"
        and ts1: "Suc (unat (count (timestamp_list ctx))) \<le> locked (input_surfaces c1)"
        and nj: "Some j \<notin> set (map (input_of ctx) (queued ctx))"
        unfolding c1_def
        using ctx_inv_lock [OF assms jl j0, of "(input_surfaces ctx ! j)\<lparr>lockCount := 1\<rparr>"]
        by simp_all
      have e0: "(input_surfaces ctx ! j)\<lparr>lockCount := 0\<rparr> = input_surfaces ctx ! j"
        using j0 by (cases "input_surfaces ctx ! j") simp
      have sub: "nvenc_submit_frame (Suc (Suc n)) dev avctx ctx fr =
        (if map_status dev \<noteq> NV_ENC_SUCCESS then Return 0 c1
         else if format (input_surfaces c1 ! j) \<noteq> mappedBufferFmt dev then Return 0 c1
         else if copy_res dev \<noteq> 0 then Return 0 c1
         else if unmap_status dev \<noteq> NV_ENC_SUCCESS then Return AVERROR_EXTERNAL c1
         else case first_free_output (output_surfaces ctx) ?range of
           Inl f \<Rightarrow> Abort f
         | Inr None \<Rightarrow> Return AVERROR_EXTERNAL ctx
         | Inr (Some i) \<Rightarrow>
             if codec_id avctx \<noteq> AV_CODEC_ID_H264 \<and> codec_id avctx \<noteq> AV_CODEC_ID_H265
             then Return AVERROR_EINVAL (c2 i)
             else case timestamp_queue_enqueue (Suc (Suc n)) (timestamp_heap dev)
                         (timestamp_list ctx) (frame_pts fr) of
               Inl f \<Rightarrow> Abort f
             | Inr (res, tl1, h) \<Rightarrow>
                 if res \<noteq> 0 then Return res ((c2 i)\<lparr>timestamp_list := tl1\<rparr>)
                 else Next ((c2 i)\<lparr>timestamp_list := tl1\<rparr>, i))"
        using jl
        by (simp add: nvenc_submit_frame_def ffi Let_def c1_def c2_def e0
                 split: sum.splits option.splits prod.splits)
      have R1: "submit_inv (Return res c1)" for res using inv1 by (simp add: submit_inv_def)
      have O: "submit_inv (Return AVERROR_EINVAL (c2 i)) \<and>
               submit_inv (case timestamp_queue_enqueue (Suc (Suc n)) (timestamp_heap dev)
                         (timestamp_list ctx) (frame_pts fr) of
               Inl f \<Rightarrow> Abort f
             | Inr (res, tl1, h) \<Rightarrow>
                 if res \<noteq> 0 then Return res ((c2 i)\<lparr>timestamp_list := tl1\<rparr>)
                 else Next ((c2 i)\<lparr>timestamp_list := tl1\<rparr>, i))"
        if ffo: "first_free_output (output_surfaces ctx) ?range = Inr (Some i)" for i
      proof -
        from first_free_output_Some [OF ffo]
        have il: "i < length (output_surfaces c1)" and ib: "busy (output_surfaces c1 ! i) = 0"
          by (simp_all add: c1_def)
        have inv2: "ctx_inv (c2 i)"
          and m2: "map (input_of (c2 i)) (queued c1) = map (input_of c1) (queued c1)"
          unfolding c2_def using ctx_inv_assign [OF inv1 il ib, of "Some j"] by simp_all
        have q2: "queued (c2 i) = queued ctx" by (simp add: c2_def c1_def queued_def)
        have q1: "queued c1 = queued ctx" by (simp add: c1_def queued_def)
        have io1: "input_of c1 = input_of ctx" by (rule input_of_cong) (simp add: c1_def)
        have ok2: "surface_ok (c2 i) (Some i)"
          using il jl by (simp add: surface_ok_def c2_def c1_def)
        have in2: "input_of (c2 i) (Some i) = Some j"
          using il by (simp add: input_of_def c2_def)
        have fr2: "input_of (c2 i) (Some i) \<notin> set (map (input_of (c2 i)) (queued (c2 i)))"
          unfolding in2 q2 using m2 nj unfolding q1 io1 by simp
        have tl2: "timestamp_list (c2 i) = timestamp_list ctx" by (simp add: c2_def c1_def)
        have l2: "input_surfaces (c2 i) = input_surfaces c1" by (simp add: c2_def)
        have "locked (input_surfaces c1) \<le> length (input_surfaces c1)" by (rule locked_le)
        moreover have "length (input_surfaces c1) < 2 ^ 31"
          using inv1 by (simp add: ctx_inv_def)
        ultimately have b: "unat (count (timestamp_list ctx)) < 2 ^ 31" using ts1 by simp
        have its: "queue_inv (timestamp_list ctx)"
          using assms by (simp add: ctx_inv_def flush_inv_def)
        from timestamp_enqueue_cases [OF its b, of n "timestamp_heap dev" "frame_pts fr"]
        obtain res q' h' where
          e: "timestamp_queue_enqueue (Suc (Suc n)) (timestamp_heap dev) (timestamp_list ctx)
                (frame_pts fr) = Inr (res, q', h')"
          and c: "if res = 0 then queue_inv q' \<and> unat (count q') = Suc (unat (count (timestamp_list ctx)))
                       \<and> size_q q' \<noteq> 0
                  else q' = timestamp_list ctx"
          by blast
        have "submit_inv (if res \<noteq> 0 then Return res ((c2 i)\<lparr>timestamp_list := q'\<rparr>)
                 else Next ((c2 i)\<lparr>timestamp_list := q'\<rparr>, i))"
        proof (cases "res = 0")
          case False
          then have "(c2 i)\<lparr>timestamp_list := q'\<rparr> = c2 i" using c tl2 by simp
          then show ?thesis using False inv2 by (simp add: submit_inv_def)
        next
          case True
          let ?c3 = "(c2 i)\<lparr>timestamp_list := q', last_dts := last_dts (c2 i)\<rparr>"
          have "ctx_inv ?c3"
            by (rule ctx_inv_timestamps [OF inv2]) (use True c ts1 l2 in simp_all)
          moreover have "fresh_sub ?c3 i"
          proof -
            have "queued ?c3 = queued (c2 i)" by (simp add: queued_def)
            moreover have "input_of ?c3 = input_of (c2 i)" by (rule input_of_cong) simp
            moreover have "surface_ok ?c3 = surface_ok (c2 i)" by (rule surface_ok_cong) simp_all
            ultimately show ?thesis
              unfolding fresh_sub_def using ok2 fr2 True c by simp
          qed
          moreover have "?c3 = (c2 i)\<lparr>timestamp_list := q'\<rparr>" by simp
          ultimately show ?thesis using True by (simp add: submit_inv_def)
        qed
        then show ?thesis using inv2 by (simp add: e submit_inv_def)
      qed
      show ?thesis
        unfolding sub using A R0 R1 O by (auto split: sum.splits option.splits)
    qed
  qed
qed


lemma nvenc_queue_output_inv:
  assumes "ctx_inv c" and "fresh_sub c i"
  shows "flow_inv (nvenc_queue_output (Suc (Suc n)) dev c (Some i))"
proof -
  let ?q = "output_surface_queue c" and ?r = "output_surface_ready_queue c"
  have f: "flush_inv c" using assms(1) by (simp add: ctx_inv_def)
  have iq: "queue_inv ?q" and ir: "queue_inv ?r"
    and dist: "distinct (map (input_of c) (queued c))" and len: "length (queued c) < 2 ^ 31"
    using f by (simp_all add: flush_inv_def)
  have lenq: "length (queued c) = unat (count ?q) + unat (count ?r)"
    using iq ir by (simp add: queued_def queue_contents_length)
  have fi: "input_of c (Some i) \<notin> set (map (input_of c) (queued c))"
    using assms(2) by (simp add: fresh_sub_def)
  have qc: "queued c = queue_contents ?q @ queue_contents ?r" by (simp add: queued_def)
  show ?thesis
  proof (cases "encode_status dev")
    case NV_ENC_ERR_GENERIC
    then show ?thesis using assms(1) by (simp add: nvenc_queue_output_def flow_inv_def)
  next
    case NV_ENC_ERR_NEED_MORE_INPUT
    have b: "unat (count ?q) < 2 ^ 31" using len lenq by simp
    from surf_enqueue_cases [OF iq b, of n "surface_heap dev" "Some i"]
    obtain res q' h' where
      e: "out_surf_queue_enqueue (Suc (Suc n)) (surface_heap dev) ?q (Some i) = Inr (res, q', h')"
      and cs: "if res = 0 then queue_inv q' \<and> queue_contents q' = queue_contents ?q @ [Some i]
               else q' = ?q"
      by blast
    show ?thesis
    proof (cases "res = 0")
      case False
      then have "c\<lparr>output_surface_queue := q'\<rparr> = c" using cs by simp
      then show ?thesis
        using False assms(1)
        by (simp add: nvenc_queue_output_def NV_ENC_ERR_NEED_MORE_INPUT e flow_inv_def)
    next
      case True
      have "ctx_inv (set_busy (c\<lparr>output_surface_queue := q', output_surface_ready_queue := ?r\<rparr>) i 1)"
        by (rule ctx_inv_enqueue [OF assms])
           (use True cs ir dist fi in \<open>auto simp: qc\<close>)
      then show ?thesis
        using True
        by (simp add: nvenc_queue_output_def NV_ENC_ERR_NEED_MORE_INPUT e flow_inv_def)
    qed
  next
    case NV_ENC_SUCCESS
    have room: "unat (count ?q) + unat (count ?r) < 2 ^ 31" using len lenq by simp
    from move_to_ready_spec [OF iq ir room, of n "surface_heap dev"]
    obtain res q' r' h' moved rest where
      mv: "move_to_ready (Suc (Suc n)) (surface_heap dev) ?q ?r = Inr (res, q', r', h')" and
      iq': "queue_inv q'" and ir': "queue_inv r'" and
      sp: "queue_contents ?q = moved @ rest" and
      rc: "queue_contents r' = queue_contents ?r @ moved" and
      fin: "if res = 0 then rest = [] \<and> queue_contents q' = []
            else rest \<noteq> [] \<and> queue_contents q' = tl rest"
      by blast
    let ?c2 = "c\<lparr>output_surface_queue := q', output_surface_ready_queue := r'\<rparr>"
    have qctx: "queued c = moved @ rest @ queue_contents ?r"
      using sp by (simp add: queued_def)
    have L: "queue_contents q' @ queue_contents r' =
               (if res = 0 then [] else tl rest) @ queue_contents ?r @ moved"
      using fin rc by simp
    have sub: "set (queue_contents q' @ queue_contents r') \<subseteq> set (queued c)"
    proof (cases "res = 0")
      case True
      then show ?thesis unfolding L qctx by auto
    next
      case False
      then have "rest \<noteq> []" using fin by simp
      then have "set (tl rest) \<subseteq> set rest" by (auto dest: list.set_sel(2))
      then show ?thesis unfolding L qctx by auto
    qed
    have d2: "distinct (map (input_of c) (queue_contents q' @ queue_contents r'))"
    proof (cases "res = 0")
      case True
      then show ?thesis using dist fin unfolding L qctx by auto
    next
      case False
      then have "rest = hd rest # tl rest" using fin by simp
      then have "queued c = moved @ (hd rest # tl rest) @ queue_contents ?r"
        using qctx by simp
      then show ?thesis using dist False unfolding L by auto
    qed
    have inv2: "ctx_inv ?c2" using assms(1) iq' ir' sub d2 by (rule ctx_inv_sub)
    show ?thesis
    proof (cases "res = 0")
      case False
      then show ?thesis
        using inv2 by (simp add: nvenc_queue_output_def NV_ENC_SUCCESS mv flow_inv_def)
    next
      case True
      have "length (queue_contents r') \<le> length (queued c)"
        unfolding rc qctx by simp
      then have b: "unat (count r') < 2 ^ 31"
        using ir' len by (simp add: queue_contents_length)
      from surf_enqueue_cases [OF ir' b, of n h' "Some i"]
      obtain res2 r2 h2 where
        e: "out_surf_queue_enqueue (Suc (Suc n)) h' r' (Some i) = Inr (res2, r2, h2)"
        and cs: "if res2 = 0 then queue_inv r2 \<and> queue_contents r2 = queue_contents r' @ [Some i]
                 else r2 = r'"
        by blast
      show ?thesis
      proof (cases "res2 = 0")
        case False
        then show ?thesis
          using True inv2 cs
          by (simp add: nvenc_queue_output_def NV_ENC_SUCCESS mv e flow_inv_def)
      next
        case r0: True
        have "ctx_inv (set_busy (c\<lparr>output_surface_queue := q', output_surface_ready_queue := r2\<rparr>) i 1)"
        proof (rule ctx_inv_enqueue [OF assms iq'])
          show "queue_inv r2" using r0 cs by simp
          show "set (queue_contents q' @ queue_contents r2) \<subseteq> insert (Some i) (set (queued c))"
            using sub r0 cs by auto
          show "distinct (map (input_of c) (queue_contents q' @ queue_contents r2))"
            using d2 r0 cs True fin fi sub unfolding rc by auto
        qed
        then show ?thesis
          using True r0
          by (simp add: nvenc_queue_output_def NV_ENC_SUCCESS mv e flow_inv_def)
      qed
    qed
  qed
qed


lemma timestamp_dequeue_count:
  assumes "queue_inv q" and "size_q q \<noteq> 0"
  shows "\<exists>t q'. timestamp_queue_dequeue q = Inr (t, q') \<and> queue_inv q' \<and>
           size_q q' = size_q q \<and> unat (count q') = unat (count q) - 1"
proof (cases "count q = 0")
  case True
  have "data q \<noteq> None" using assms by (auto simp: queue_inv_def split: option.splits)
  from dequeue_empty [OF assms(2) this True] show ?thesis
    using assms(1) True by (simp add: timestamp_queue_dequeue_def)
next
  case False
  from dequeue_nonempty [OF assms(1) False] show ?thesis
    using False by (auto simp: timestamp_queue_dequeue_def unat_minus_one)
qed

lemma process_output_surface_count:
  assumes "queue_inv (timestamp_list ctx)" and "size_q (timestamp_list ctx) \<noteq> 0"
    and "i < length (output_surfaces ctx)" and "known_codec avctx"
  shows "\<exists>res tl1 d pkt'.
           process_output_surface api avctx dev ctx pkt (Some i) =
             Inr (res, ctx\<lparr>timestamp_list := tl1, last_dts := d\<rparr>, pkt') \<and>
           queue_inv tl1 \<and> size_q tl1 = size_q (timestamp_list ctx) \<and>
           unat (count tl1) \<le> unat (count (timestamp_list ctx)) \<and>
           (res = 0 \<longrightarrow> unat (count tl1) = unat (count (timestamp_list ctx)) - 1)"
proof -
  define good :: "fault + (int \<times> NvencContext \<times> AVPacket) \<Rightarrow> bool" where
    "good r = (\<exists>res tl1 d pkt'. r = Inr (res, ctx\<lparr>timestamp_list := tl1, last_dts := d\<rparr>, pkt') \<and>
                 queue_inv tl1 \<and> size_q tl1 = size_q (timestamp_list ctx) \<and>
                 unat (count tl1) \<le> unat (count (timestamp_list ctx)) \<and>
                 (res = 0 \<longrightarrow> unat (count tl1) = unat (count (timestamp_list ctx)) - 1))" for r
  from timestamp_dequeue_count [OF assms(1,2)] obtain t q' where
    d: "timestamp_queue_dequeue (timestamp_list ctx) = Inr (t, q')" and
    i: "queue_inv q'" and s: "size_q q' = size_q (timestamp_list ctx)" and
    c: "unat (count q') = unat (count (timestamp_list ctx)) - 1" by blast
  have c': "unat (count q') \<le> unat (count (timestamp_list ctx))" using c by simp
  have E: "good (process_output_error ctx res p)" for res p
  proof -
    have "process_output_error ctx res p =
            Inr (res, ctx\<lparr>timestamp_list := q', last_dts := last_dts ctx\<rparr>, p)"
      by (simp add: process_output_error_def d)
    then show ?thesis unfolding good_def using i s c c' by blast
  qed
  have T: "good (process_output_timestamps dev ctx p)" for p
  proof -
    have "\<exists>pkt4. process_output_timestamps dev ctx p =
            Inr (0, ctx\<lparr>timestamp_list := q', last_dts := dts pkt4\<rparr>, pkt4)"
      unfolding process_output_timestamps_def d Let_def sum.case prod.case by blast
    then show ?thesis unfolding good_def using i s c c' by blast
  qed
  have N: "good (Inr (AVERROR_ENOMEM, ctx, pkt))"
    unfolding good_def
    by (rule exI [of _ AVERROR_ENOMEM], rule exI [of _ "timestamp_list ctx"],
        rule exI [of _ "last_dts ctx"], rule exI [of _ pkt])
       (simp add: assms(1))
  have "good (process_output_surface api avctx dev ctx pkt (Some i))"
    unfolding process_output_surface_def Let_def
    using E T N assms(3,4) by (auto simp: known_codec_def)
  then show ?thesis unfolding good_def .
qed

lemma ctx_inv_release:
  assumes "ctx_inv B" and "i < length (output_surfaces B)" and "j < length (input_surfaces B)"
    and "Some j \<notin> set (map (input_of B) (queued B))" and "input_of B (Some i) = Some j"
    and "unat (count (timestamp_list B)) \<le> locked (input_surfaces B) - 1"
  shows "ctx_inv ((set_busy B i b)\<lparr>input_surfaces := (input_surfaces (set_busy B i b))[j := v]\<rparr>)"
    (is "ctx_inv ?C")
proof -
  have f: "flush_inv B" and u: "list_all (in_use B) (queued B)"
    and p: "length (input_surfaces B) < 2 ^ 31"
    using assms(1) by (simp_all add: ctx_inv_def)
  have fC: "flush_inv ?C" using f assms(2,4) by (rule flush_inv_release)
  have q: "queued ?C = queued B" by (simp add: queued_def)
  have "in_use ?C s" if "s \<in> set (queued B)" for s
  proof -
    have "in_use B s" using u that by (simp add: list_all_iff)
    then obtain i' where s: "s = Some i'" and bz: "busy (output_surfaces B ! i') \<noteq> 0"
      by (auto simp: in_use_def split: option.splits)
    have "input_of B s \<noteq> Some j" using assms(4) that by force
    then have "i' \<noteq> i" using assms(5) s by auto
    then show ?thesis using s bz by (simp add: in_use_def set_busy_def)
  qed
  then have uC: "list_all (in_use ?C) (queued ?C)" unfolding q by (simp add: list_all_iff)
  have "locked (input_surfaces B) - 1 \<le> locked ((input_surfaces B)[j := v])"
    using locked_update [OF assms(3), of v] by (simp split: if_splits)
  then have "unat (count (timestamp_list ?C)) \<le> locked (input_surfaces ?C)"
    using assms(6) by simp
  then show ?thesis using fC uC p by (simp add: ctx_inv_def)
qed

lemma nvenc_retrieve_inv:
  assumes "ctx_inv ctx" and "count (output_surface_ready_queue ctx) \<noteq> 0"
    and "known_codec avctx"
  shows "\<exists>ret ctx' pkt' g'. nvenc_retrieve api dev avctx ctx pkt g = Inr (ret, ctx', pkt', g') \<and>
           ctx_inv ctx'"
proof -
  let ?q = "output_surface_queue ctx"
  let ?r = "output_surface_ready_queue ctx"
  let ?r1 = "?r\<lparr>count := count ?r - 1\<rparr>"
  have fl: "flush_inv ctx"
    and tb: "unat (count (timestamp_list ctx)) \<le> locked (input_surfaces ctx)"
    using assms(1) by (simp_all add: ctx_inv_def)
  have ir: "queue_inv ?r" and its: "queue_inv (timestamp_list ctx)" and iq: "queue_inv ?q"
    and dist: "distinct (map (input_of ctx) (queued ctx))"
    using fl by (simp_all add: flush_inv_def)
  from out_surf_dequeue_nonempty [OF ir assms(2)] obtain x where
    deq: "out_surf_queue_dequeue ?r = Inr (x, ?r1)" and
    cont: "queue_contents ?r = x # queue_contents ?r1" and inv1: "queue_inv ?r1"
    by blast
  have qc: "queued ctx = queue_contents ?q @ x # queue_contents ?r1"
    using cont by (simp add: queued_def)
  then have ne: "queued ctx \<noteq> []" by simp
  then have sz: "size_q (timestamp_list ctx) \<noteq> 0" using fl by (auto simp: flush_inv_def)
  have "surface_ok ctx x" using fl qc by (simp add: flush_inv_def)
  from surface_okD [OF this]
  obtain i j where x: "x = Some i" and i: "i < length (output_surfaces ctx)"
    and inp: "input_surface (output_surfaces ctx ! i) = Some j"
    and j: "j < length (input_surfaces ctx)" and l: "lockCount (input_surfaces ctx ! j) \<noteq> 0"
    by blast
  let ?A = "ctx\<lparr>output_surface_ready_queue := ?r1\<rparr>"
  have invA: "ctx_inv (ctx\<lparr>output_surface_queue := ?q, output_surface_ready_queue := ?r1\<rparr>)"
    by (rule ctx_inv_sub [OF assms(1) iq inv1]) (use dist in \<open>auto simp: qc\<close>)
  have "\<exists>res tl1 d pkt'.
           process_output_surface api avctx (bitstream dev) ?A pkt (Some i) =
             Inr (res, ?A\<lparr>timestamp_list := tl1, last_dts := d\<rparr>, pkt') \<and>
           queue_inv tl1 \<and> size_q tl1 = size_q (timestamp_list ?A) \<and>
           unat (count tl1) \<le> unat (count (timestamp_list ?A)) \<and>
           (res = 0 \<longrightarrow> unat (count tl1) = unat (count (timestamp_list ?A)) - 1)"
    by (rule process_output_surface_count) (use its sz i assms(3) in simp_all)
  then obtain res tl1 d pkt' where
    P: "process_output_surface api avctx (bitstream dev) ?A pkt (Some i) =
             Inr (res, ?A\<lparr>timestamp_list := tl1, last_dts := d\<rparr>, pkt')"
    and itl: "queue_inv tl1" and stl: "size_q tl1 = size_q (timestamp_list ctx)"
    and ctl: "unat (count tl1) \<le> unat (count (timestamp_list ctx))"
    and ctl0: "res = 0 \<longrightarrow> unat (count tl1) = unat (count (timestamp_list ctx)) - 1"
    by auto
  let ?B = "?A\<lparr>timestamp_list := tl1, last_dts := d\<rparr>"
  have invB: "ctx_inv ?B"
    by (rule ctx_inv_timestamps) (use invA itl stl sz ctl tb in simp_all)
  have qB: "queued ?B = queue_contents ?q @ queue_contents ?r1"
    by (simp add: queued_def)
  show ?thesis
  proof (cases "res = 0")
    case False
    then have r: "nvenc_retrieve api dev avctx ctx pkt g = Inr (res, ?B, pkt', g)"
      by (simp add: nvenc_retrieve_def deq x P)
    show ?thesis unfolding r using invB by simp
  next
    case True
    let ?C2 = "set_busy ?B i 0"
    let ?C = "?C2\<lparr>input_surfaces := (input_surfaces ?C2)
                 [j := (input_surfaces ?C2 ! j)\<lparr>lockCount := lockCount (input_surfaces ?C2 ! j) - 1\<rparr>]\<rparr>"
    have r: "nvenc_retrieve api dev avctx ctx pkt g = Inr (0, ?C, pkt', 1)"
      using True i inp j l
      by (simp add: nvenc_retrieve_def deq x P Let_def set_busy_def)
    have ix: "input_of ctx x = Some j" using x inp by (simp add: input_of_def)
    then have "Some j \<notin> set (map (input_of ctx) (queued ?B))"
      using dist unfolding qB qc by auto
    moreover have io: "input_of ?B = input_of ctx" by (rule input_of_cong) simp
    ultimately have nj: "Some j \<notin> set (map (input_of ?B) (queued ?B))" by simp
    have iB: "input_of ?B (Some i) = Some j" using ix x io by simp
    have cB: "unat (count (timestamp_list ?B)) \<le> locked (input_surfaces ?B) - 1"
      using True ctl0 tb by simp
    have invC: "ctx_inv ?C"
      by (rule ctx_inv_release [OF invB _ _ nj iB cB]) (use i j in simp_all)
    show ?thesis unfolding r using invC by simp
  qed
qed

text \<open>One call with a frame keeps the invariant.\<close>

lemma submit_next_codec:
  "nvenc_submit_frame n dev avctx ctx fr = Next ci \<Longrightarrow> known_codec avctx"
  by (auto simp: nvenc_submit_frame_def Let_def known_codec_def
           split: sum.splits option.splits if_splits prod.splits)

lemma submit_return_queued:
  "nvenc_submit_frame n dev avctx ctx fr = Return res c \<Longrightarrow> queued c = queued ctx"
  by (auto simp: nvenc_submit_frame_def Let_def queued_def
           split: sum.splits option.splits if_splits prod.splits)

lemma frame_call_inv:
  assumes "ctx_inv ctx" and "queued ctx = [] \<or> known_codec avctx"
    and "nvenc_encode_frame (Suc (Suc n)) api dev avctx ctx pkt (Some fr) g = Inr (ret, ctx', pkt', g')"
  shows "ctx_inv ctx' \<and> (queued ctx' = [] \<or> known_codec avctx)"
proof -
  have s: "submit_inv (nvenc_submit_frame (Suc (Suc n)) dev avctx ctx fr)"
    using assms(1) by (rule nvenc_submit_frame_inv)
  show ?thesis
  proof (cases "nvenc_submit_frame (Suc (Suc n)) dev avctx ctx fr")
    case (Abort f)
    then show ?thesis using assms(3) by (simp add: nvenc_encode_frame_def nvenc_before_gate_def)
  next
    case (Return res c)
    then have "ctx' = c"
      using assms(3) by (simp add: nvenc_encode_frame_def nvenc_before_gate_def)
    moreover have "ctx_inv c" using s Return by (simp add: submit_inv_def)
    moreover have "queued c = queued ctx" using Return by (rule submit_return_queued)
    ultimately show ?thesis using assms(2) by simp
  next
    case (Next ci)
    then have kc: "known_codec avctx" by (rule submit_next_codec)
    obtain c1 i where ci: "ci = (c1, i)" by (cases ci)
    have "ctx_inv c1" and "fresh_sub c1 i" using s Next ci by (simp_all add: submit_inv_def)
    then have fl: "flow_inv (nvenc_queue_output (Suc (Suc n)) dev c1 (Some i))"
      by (rule nvenc_queue_output_inv)
    have bg: "nvenc_before_gate (Suc (Suc n)) dev avctx ctx (Some fr) =
                nvenc_queue_output (Suc (Suc n)) dev c1 (Some i)"
      using Next ci by (simp add: nvenc_before_gate_def)
    have "ctx_inv ctx'"
    proof (cases "nvenc_queue_output (Suc (Suc n)) dev c1 (Some i)")
      case (Abort f)
      then show ?thesis using assms(3) bg by (simp add: nvenc_encode_frame_def)
    next
      case (Return res c)
      then show ?thesis using assms(3) bg fl by (simp add: nvenc_encode_frame_def flow_inv_def)
    next
      case n2: (Next c2)
      then have inv2: "ctx_inv c2" using fl by (simp add: flow_inv_def)
      show ?thesis
      proof (cases "emission_gate c2 True")
        case False
        then show ?thesis using n2 bg assms(3) inv2 by (simp add: nvenc_encode_frame_def)
      next
        case True
        then have e: "nvenc_retrieve api dev avctx c2 pkt g = Inr (ret, ctx', pkt', g')"
          using n2 bg assms(3) by (simp add: nvenc_encode_frame_def)
        have "count (output_surface_ready_queue c2) \<noteq> 0"
          using True by (simp add: emission_gate_def)
        from nvenc_retrieve_inv [OF inv2 this kc, of api dev pkt g] show ?thesis
          unfolding e by simp
      qed
    qed
    then show ?thesis using kc by simp
  qed
qed

lemma queues_unused_inv:
  assumes "queues_unused ctx"
  shows "ctx_inv ctx"
proof -
  have "queue_contents (empty_queue :: surface_ptr NvencDataList) = []"
    by (simp add: queue_contents_def empty_queue_def)
  then have "queued ctx = []" using assms by (simp add: queues_unused_def queued_def)
  moreover have "count (timestamp_list ctx) = 0"
    using assms by (simp add: queues_unused_def empty_queue_def)
  ultimately show ?thesis
    using assms empty_queue_inv [where 'a = surface_ptr] empty_queue_inv [where 'a = int64_t]
    by (simp add: ctx_inv_def flush_inv_def queues_unused_def)
qed

lemma encode_run_inv:
  assumes "ctx_inv ctx" and "queued ctx = [] \<or> known_codec avctx"
    and "encode_run (Suc (Suc n)) api calls avctx ctx = Inr ctx'"
  shows "ctx_inv ctx' \<and> (queued ctx' = [] \<or> known_codec avctx)"
  using assms
proof (induction calls arbitrary: ctx)
  case Nil
  then show ?case by simp
next
  case (Cons call calls)
  obtain dev fr pkt g where call: "call = (dev, fr, pkt, g)" by (cases call)
  show ?case
  proof (cases "nvenc_encode_frame (Suc (Suc n)) api dev avctx ctx pkt (Some fr) g")
    case (Inl f)
    then show ?thesis using Cons.prems(3) call by simp
  next
    case (Inr r)
    obtain ret c1 pkt' g' where r: "r = (ret, c1, pkt', g')" by (cases r)
    have c1: "ctx_inv c1 \<and> (queued c1 = [] \<or> known_codec avctx)"
      using Cons.prems(1,2) Inr unfolding r by (rule frame_call_inv)
    have "encode_run (Suc (Suc n)) api calls avctx c1 = Inr ctx'"
      using Cons.prems(3) call Inr r by simp
    with c1 show ?thesis using Cons.IH by blast
  qed
qed

text \<open>
  Claim C5.  Take a context with unused queues, any run of calls with a frame from it
  that did not abort, and then a run of calls with a null frame in each of which
  \<open>nvEncEncodePicture\<close> answers \<open>NV_ENC_SUCCESS\<close>.  Then no call with a null frame aborts,
  and with \<open>N\<close> the number of surfaces in the in-flight and the ready queue at the end of
  the stream, every such call from the one after the \<open>N\<close>-th on returns 0 with
  \<open>*got_packet\<close> 0 and leaves both queues empty: each earlier call either is already of
  that kind or takes at least one surface out of the two queues, as a packet or with an
  error code.
\<close>

theorem C5_flush_drains:
  assumes "queues_unused ctx0"
    and "encode_run (Suc (Suc n)) api calls avctx ctx0 = Inr ctx"
    and "\<forall>dev \<in> set devs. encode_status dev = NV_ENC_SUCCESS"
  shows "\<exists>rs. flush_run (Suc (Suc n)) api devs avctx ctx pkt g = Inr rs \<and>
           length rs = length devs \<and>
           (\<forall>m < length rs. length (queued ctx) \<le> m \<longrightarrow> drained (rs ! m))"
proof -
  have i0: "ctx_inv ctx0" using assms(1) by (rule queues_unused_inv)
  have "queue_contents (empty_queue :: surface_ptr NvencDataList) = []"
    by (simp add: queue_contents_def empty_queue_def)
  then have "queued ctx0 = []" using assms(1) by (simp add: queues_unused_def queued_def)
  then have q0: "queued ctx0 = [] \<or> known_codec avctx" by simp
  from encode_run_inv [OF i0 q0 assms(2)]
  have "ctx_inv ctx" and kc: "queued ctx = [] \<or> known_codec avctx" by simp_all
  then have "flush_inv ctx" by (simp add: ctx_inv_def)
  then show ?thesis using assms(3) kc by (rule flush_run_drains)
qed

text \<open>
  An instance: two frames are submitted to a freshly opened context and the device asks
  for more input both times, so two surfaces are in flight.  Four flush calls follow:
  two packets, then twice no packet with both queues empty.
\<close>

lemma two_flush_run:
  "(case flush_run 2 True (replicate 4 (ready_device 0)) h264_avctx two_in_flight_ctx blank_packet 0 of
      Inl f \<Rightarrow> False
    | Inr rs \<Rightarrow>
        map (\<lambda>(ret, c, p, g').
               (ret, g', count (output_surface_queue c), count (output_surface_ready_queue c))) rs
        = [(0, 1, 0, 1), (0, 1, 0, 0), (0, 0, 0, 0), (0, 0, 0, 0)])"
  by code_simp

lemma two_frames_run:
  "encode_run 2 True
     [(need_more_device, frame0, blank_packet, 0), (need_more_device, frame1, blank_packet, 0)]
     h264_avctx fresh_ctx = Inr two_in_flight_ctx"
  by code_simp

lemma fresh_queues_unused: "queues_unused fresh_ctx"
  by (simp add: queues_unused_def fresh_ctx_def)

theorem C5_flush_drains_witness:
  "queues_unused fresh_ctx \<and>
   encode_run 2 True
     [(need_more_device, frame0, blank_packet, 0), (need_more_device, frame1, blank_packet, 0)]
     h264_avctx fresh_ctx = Inr two_in_flight_ctx \<and>
   queued two_in_flight_ctx = [Some 0, Some 1] \<and>
   (case flush_run 2 True (replicate 4 (ready_device 0)) h264_avctx two_in_flight_ctx blank_packet 0 of
      Inl f \<Rightarrow> False
    | Inr rs \<Rightarrow>
        map (\<lambda>(ret, c, p, g').
               (ret, g', count (output_surface_queue c), count (output_surface_ready_queue c))) rs
        = [(0, 1, 0, 1), (0, 1, 0, 0), (0, 0, 0, 0), (0, 0, 0, 0)] \<and>
        drained (rs ! 2) \<and> drained (rs ! 3))"
proof -
  have s: "\<forall>dev \<in> set (replicate 4 (ready_device 0)). encode_status dev = NV_ENC_SUCCESS"
    by (simp add: ready_device_def)
  have q: "queued two_in_flight_ctx = [Some 0, Some 1]" by code_simp
  have e: "encode_run (Suc (Suc 0)) True
     [(need_more_device, frame0, blank_packet, 0), (need_more_device, frame1, blank_packet, 0)]
     h264_avctx fresh_ctx = Inr two_in_flight_ctx"
    using two_frames_run by (simp add: numeral_2_eq_2)
  from C5_flush_drains [OF fresh_queues_unused e s, of blank_packet 0]
  obtain rs where
    r: "flush_run 2 True (replicate 4 (ready_device 0)) h264_avctx two_in_flight_ctx blank_packet 0 = Inr rs"
    and l: "length rs = 4"
    and d: "\<forall>m < length rs. length (queued two_in_flight_ctx) \<le> m \<longrightarrow> drained (rs ! m)"
    by (auto simp: numeral_2_eq_2)
  have "drained (rs ! 2)" and "drained (rs ! 3)" using d l q by simp_all
  then show ?thesis
    using two_flush_run two_frames_run fresh_queues_unused q by (simp add: r)
qed

end
